theory Spec2Isabelle
  imports Complex_Main "HOL-Library.AList" "HOL-Library.Char_ord" "HOL-Library.List_Lexorder"
begin

section \<open>Python strings\<close>

text \<open>
  Texts are modelled as HOL strings, so the alphabet of the model is the code points
  0..255.  \<open>is_space\<close> is Python's \<^verbatim>\<open>str.isspace\<close> on that range, \<open>strip\<close> is
  \<^verbatim>\<open>str.strip()\<close> without arguments.
\<close>

definition is_space :: "char \<Rightarrow> bool" where
  "is_space c = (of_char c \<in> {9, 10, 11, 12, 13, 28, 29, 30, 31, 32, 133, 160 :: nat})"

definition strip :: "string \<Rightarrow> string" where
  "strip s = rev (dropWhile is_space (rev (dropWhile is_space s)))"

text \<open>Decimal digits of a natural number, as \<^verbatim>\<open>str(n)\<close> and the f-strings print them.\<close>

definition digit_char :: "nat \<Rightarrow> char" where
  "digit_char d = char_of (48 + d)"

function str_of_nat :: "nat \<Rightarrow> string" where
  "str_of_nat n =
     (if n < 10 then [digit_char n] else str_of_nat (n div 10) @ [digit_char (n mod 10)])"
  by pat_completeness auto

termination
  by (relation "measure (\<lambda>n. n)") auto

declare str_of_nat.simps [simp del]

text \<open>The format \<^verbatim>\<open>{n:05d}\<close> for a number that is not negative.\<close>

definition zero_pad5 :: "nat \<Rightarrow> string" where
  "zero_pad5 n = replicate (5 - length (str_of_nat n)) (CHR ''0'') @ str_of_nat n"

definition quoted :: "string \<Rightarrow> string" where
  "quoted s = [CHR 0x27] @ s @ [CHR 0x27]"

section \<open>Dataset records\<close>

text \<open>
  Headers, cards, audits and footers are Python dictionaries with string keys, written to
  and read from JSON.  A dictionary is an association list in insertion order; assignment
  \<^verbatim>\<open>d[k] = v\<close> is \<open>AList.update\<close> (in place for a key that is present, at the end
  otherwise), \<^verbatim>\<open>d.get(k)\<close> is \<open>map_of\<close>.  \<open>JNum\<close> stands for a float, with its
  value as a rational.
\<close>

datatype jval =
    JNull
  | JBool bool
  | JInt int
  | JNum rat
  | JStr string
  | JArr "jval list"
  | JObj "(string \<times> jval) list"

type_synonym jdict = "(string \<times> jval) list"

definition has_key :: "jdict \<Rightarrow> string \<Rightarrow> bool" where
  "has_key d k = (map_of d k \<noteq> None)"

text \<open>\<^verbatim>\<open>dict.update\<close>: the entries of \<open>e\<close> are assigned in order.\<close>

definition dict_update :: "jdict \<Rightarrow> jdict \<Rightarrow> jdict" where
  "dict_update d e = fold (\<lambda>(k, v) acc. AList.update k v acc) e d"

text \<open>Python's truth value of a JSON value.\<close>

fun truthy :: "jval \<Rightarrow> bool" where
  "truthy JNull = False"
| "truthy (JBool b) = b"
| "truthy (JInt i) = (i \<noteq> 0)"
| "truthy (JNum q) = (q \<noteq> 0)"
| "truthy (JStr s) = (s \<noteq> [])"
| "truthy (JArr xs) = (xs \<noteq> [])"
| "truthy (JObj d) = (d \<noteq> [])"

section \<open>am\_structural\_robust: retry configuration\<close>

text \<open>
  \<^verbatim>\<open>RetryConfig\<close>.  The delays are Python floats; every value that occurs
  (a power of two below the cap, or the cap) is exact in binary floating point, so
  the model computes them as rationals.  \<open>attempt\<close> is the loop index of
  \<^verbatim>\<open>range(MAX_RETRIES)\<close>, a natural number.
\<close>

definition MAX_RETRIES :: nat where "MAX_RETRIES = 3"
definition INITIAL_DELAY :: rat where "INITIAL_DELAY = 1"
definition BACKOFF_FACTOR :: rat where "BACKOFF_FACTOR = 2"
definition MAX_DELAY :: rat where "MAX_DELAY = 10"

definition get_delay :: "nat \<Rightarrow> rat" where
  "get_delay attempt = min (INITIAL_DELAY * BACKOFF_FACTOR ^ attempt) MAX_DELAY"

section \<open>am\_structural\_robust: blank page detection\<close>

record blank_config =
  min_chars_ocr :: int
  min_chars_valid :: int
  skip_front_matter :: bool

text \<open>The defaults of \<^verbatim>\<open>BlankPageDetector.__init__\<close>.\<close>

definition default_blank_config :: blank_config where
  "default_blank_config =
     \<lparr>min_chars_ocr = 50, min_chars_valid = 10, skip_front_matter = True\<rparr>"

definition is_truly_blank :: "blank_config \<Rightarrow> string \<Rightarrow> nat \<Rightarrow> bool" where
  "is_truly_blank cfg text page_num =
     (let text_len = int (length (strip text)) in
      if text_len = 0 then True
      else if skip_front_matter cfg \<and> page_num \<le> 5 \<and> text_len < 20 then True
      else if text_len < min_chars_valid cfg then True
      else False)"

definition needs_ocr :: "blank_config \<Rightarrow> string \<Rightarrow> nat \<Rightarrow> bool" where
  "needs_ocr cfg text page_num =
     (if is_truly_blank cfg text page_num then False
      else int (length (strip text)) < min_chars_ocr cfg)"

section \<open>am\_structural\_robust: the text extractor chain\<close>

datatype ExtractionMethod = PDFMINER | PDFPLUMBER | PYPDF2 | OCR | NONE

fun method_value :: "ExtractionMethod \<Rightarrow> string" where
  "method_value PDFMINER = ''pdfminer''"
| "method_value PDFPLUMBER = ''pdfplumber''"
| "method_value PYPDF2 = ''pypdf2''"
| "method_value OCR = ''ocr''"
| "method_value NONE = ''none''"

text \<open>
  The names under which \<^verbatim>\<open>TextExtractorChain.__init__\<close> registers extractors, and
  \<^verbatim>\<open>ExtractionMethod[extractor_name.upper()]\<close>.
\<close>

datatype extractor_name = Pdfminer | Pdfplumber | Pypdf2 | Ocr

fun method_of_name :: "extractor_name \<Rightarrow> ExtractionMethod" where
  "method_of_name Pdfminer = PDFMINER"
| "method_of_name Pdfplumber = PDFPLUMBER"
| "method_of_name Pypdf2 = PYPDF2"
| "method_of_name Ocr = OCR"

text \<open>The exceptions that the modelled functions raise, as error values.\<close>

datatype py_error =
    RuntimeError
  | FileNotFoundError
  | ValueError
  | AttributeError
  | TypeError
  | PageNumNotInt

text \<open>
  The chain built by \<^verbatim>\<open>__init__\<close> from the availability of the libraries and the
  \<^verbatim>\<open>ocr.enabled\<close> setting.
\<close>

definition build_chain :: "bool \<Rightarrow> bool \<Rightarrow> bool \<Rightarrow> bool \<Rightarrow> bool \<Rightarrow> py_error + extractor_name list" where
  "build_chain pdfminer_available pdfplumber_available pypdf2_available ocr_available ocr_enabled =
     (let extractors =
            (if pdfminer_available then [Pdfminer] else []) @
            (if pdfplumber_available then [Pdfplumber] else []) @
            (if pypdf2_available then [Pypdf2] else []) @
            (if ocr_available \<and> ocr_enabled then [Ocr] else [])
      in if extractors = [] then Inl RuntimeError else Inr extractors)"

text \<open>
  The extractor functions themselves (pdfminer, pdfplumber, PyPDF2, tesseract) are
  external: for the page under extraction each one either raises or returns a pair of
  a text and an optional confidence.  \<open>outcome\<close> is what one call does; the
  behaviour of the strategies is a function from names to outcomes.  The text
  normaliser (\<^verbatim>\<open>normalize\<close> followed by \<^verbatim>\<open>remove_common_watermarks\<close>) is a
  parameter \<open>nrm\<close>.

  Every call and every sleep is logged, in order: \<open>Attempt n k\<close> is the call made by
  the retry loop of strategy \<open>n\<close> in its iteration \<open>k\<close>, \<open>Preview n\<close> is a call made by
  \<^verbatim>\<open>_try_non_ocr_preview\<close>, \<open>Sleep d\<close> is \<^verbatim>\<open>time.sleep(d)\<close>.
\<close>

datatype outcome = Raised | Returned string "rat option"

datatype event = Attempt extractor_name nat | Preview extractor_name | Sleep rat

type_synonym behaviour = "extractor_name \<Rightarrow> outcome"

text \<open>\<^verbatim>\<open>_try_non_ocr_preview\<close>: the first non-OCR extractor that does not raise.\<close>

fun try_non_ocr_preview :: "behaviour \<Rightarrow> extractor_name list \<Rightarrow> event list \<Rightarrow> string \<times> event list" where
  "try_non_ocr_preview beh [] tr = ('''', tr)"
| "try_non_ocr_preview beh (name # rest) tr =
     (if name = Ocr then try_non_ocr_preview beh rest tr
      else (case beh name of
              Returned text c \<Rightarrow> (text, tr @ [Preview name])
            | Raised \<Rightarrow> try_non_ocr_preview beh rest (tr @ [Preview name])))"

text \<open>
  The retry loop \<^verbatim>\<open>for attempt in range(RetryConfig.MAX_RETRIES)\<close> of one strategy:
  \<open>attempt\<close> is the loop index and \<open>left\<close> the number of iterations still to run.
  The result is \<open>Some\<close> of the accepted text and confidence, or \<open>None\<close> when the loop
  ends without a return.
\<close>

fun retry_loop :: "(string \<Rightarrow> string) \<Rightarrow> behaviour \<Rightarrow> extractor_name \<Rightarrow> nat \<Rightarrow> nat \<Rightarrow> event list
    \<Rightarrow> (string \<times> rat option) option \<times> event list" where
  "retry_loop nrm beh name attempt 0 tr = (None, tr)"
| "retry_loop nrm beh name attempt (Suc left) tr =
     (case beh name of
        Returned text0 confidence \<Rightarrow>
          (let text = (if text0 \<noteq> [] then nrm text0 else text0) in
           if text \<noteq> [] \<and> 10 \<le> length (strip text)
           then (Some (text, confidence), tr @ [Attempt name attempt])
           else (None, tr @ [Attempt name attempt]))
      | Raised \<Rightarrow>
          (if attempt < MAX_RETRIES - 1
           then retry_loop nrm beh name (Suc attempt) left
                  (tr @ [Attempt name attempt, Sleep (get_delay attempt)])
           else retry_loop nrm beh name (Suc attempt) left (tr @ [Attempt name attempt])))"

text \<open>
  \<^verbatim>\<open>TextExtractorChain.extract\<close> (here \<open>extract_text\<close>, as \<open>extract\<close> is a reserved
  word): \<open>extract_loop\<close> is the outer \<^verbatim>\<open>for\<close> loop over the
  extractors still to visit; \<open>extractors\<close> is the whole chain, which the preview walks
  again.
\<close>

fun extract_loop :: "blank_config \<Rightarrow> (string \<Rightarrow> string) \<Rightarrow> behaviour \<Rightarrow> nat \<Rightarrow> extractor_name list
    \<Rightarrow> extractor_name list \<Rightarrow> event list
    \<Rightarrow> (string \<times> ExtractionMethod \<times> rat option) \<times> event list" where
  "extract_loop cfg nrm beh page_num extractors [] tr = (('''', NONE, None), tr)"
| "extract_loop cfg nrm beh page_num extractors (name # rest) tr =
     (let (text_preview, tr1) =
            (if name = Ocr then try_non_ocr_preview beh extractors tr else ('''', tr))
      in if name = Ocr \<and> \<not> needs_ocr cfg text_preview page_num
         then (if text_preview \<noteq> [] then ((text_preview, PDFPLUMBER, None), tr1)
               else (('''', NONE, None), tr1))
         else (case retry_loop nrm beh name 0 MAX_RETRIES tr1 of
                 (Some (text, confidence), tr2) \<Rightarrow> ((text, method_of_name name, confidence), tr2)
               | (None, tr2) \<Rightarrow> extract_loop cfg nrm beh page_num extractors rest tr2))"

definition extract_text :: "blank_config \<Rightarrow> (string \<Rightarrow> string) \<Rightarrow> behaviour \<Rightarrow> extractor_name list \<Rightarrow> nat
    \<Rightarrow> (string \<times> ExtractionMethod \<times> rat option) \<times> event list" where
  "extract_text cfg nrm beh extractors page_num =
     extract_loop cfg nrm beh page_num extractors extractors []"

section \<open>am\_structural\_robust: page cards\<close>

text \<open>
  \<^verbatim>\<open>round(x, 3)\<close>: the nearest multiple of 1/1000, ties to the even one.
\<close>

definition round3 :: "rat \<Rightarrow> rat" where
  "round3 q =
     (let y = q * 1000; f = \<lfloor>y\<rfloor>; r = y - of_int f
      in of_int (if r < 1/2 then f else if 1/2 < r then f + 1
                 else if even f then f else f + 1) / 1000)"

record page_stats =
  stat_method :: ExtractionMethod
  stat_ocr_used :: bool
  stat_table_count :: nat

text \<open>
  \<^verbatim>\<open>RobustStructuralProcessor._process_page\<close>.  \<open>tables\<close> is what the table chain
  returns for the page (it catches every exception of its extractors), \<open>pdf_name\<close> is
  \<^verbatim>\<open>pdf_path.name\<close>; \<open>page_num\<close> counts from 0, as in \<^verbatim>\<open>range(total_pages)\<close>.
\<close>

definition process_page :: "blank_config \<Rightarrow> (string \<Rightarrow> string) \<Rightarrow> behaviour \<Rightarrow> extractor_name list
    \<Rightarrow> jval list \<Rightarrow> string \<Rightarrow> nat \<Rightarrow> jdict \<times> page_stats" where
  "process_page cfg nrm beh extractors tables pdf_name page_num =
     (case fst (extract_text cfg nrm beh extractors page_num) of
        (text, method, ocr_confidence) \<Rightarrow>
          (let card0 =
                 [(''segment_id'', JStr (zero_pad5 (page_num + 1))),
                  (''page_num'', JInt (int (page_num + 1))),
                  (''segment'', JStr text),
                  (''source_file'', JStr pdf_name),
                  (''extraction_method'', JStr (method_value method)),
                  (''ocr_used'', JBool (method = OCR)),
                  (''has_table'', JBool (0 < length tables))];
               card1 =
                 (case ocr_confidence of
                    Some c \<Rightarrow> if method = OCR
                              then AList.update ''ocr_confidence'' (JNum (round3 c)) card0
                              else card0
                  | None \<Rightarrow> card0);
               card2 =
                 (if tables \<noteq> []
                  then AList.update ''table_count'' (JInt (int (length tables)))
                         (AList.update ''tables'' (JArr tables) card1)
                  else card1);
               stats = \<lparr>stat_method = method, stat_ocr_used = (method = OCR),
                          stat_table_count = length tables\<rparr>
           in (card2, stats)))"

text \<open>\<^verbatim>\<open>_create_error_card\<close>.\<close>

definition create_error_card :: "nat \<Rightarrow> string \<Rightarrow> jdict" where
  "create_error_card page_num pdf_name =
     [(''segment_id'', JStr (zero_pad5 (page_num + 1))),
      (''page_num'', JInt (int (page_num + 1))),
      (''segment'', JStr ''''),
      (''source_file'', JStr pdf_name),
      (''extraction_method'', JStr ''none''),
      (''ocr_used'', JBool False),
      (''has_table'', JBool False),
      (''error'', JBool True)]"

text \<open>
  One iteration of the page loop of \<^verbatim>\<open>process_pdf\<close>: the card of \<^verbatim>\<open>_process_page\<close>
  is appended, or the error card when an exception escapes \<^verbatim>\<open>_process_page\<close>.  No
  modelled function raises there, so that event is the flag \<open>escaped\<close>.
\<close>

definition page_card :: "bool \<Rightarrow> blank_config \<Rightarrow> (string \<Rightarrow> string) \<Rightarrow> behaviour \<Rightarrow> extractor_name list
    \<Rightarrow> jval list \<Rightarrow> string \<Rightarrow> nat \<Rightarrow> jdict" where
  "page_card escaped cfg nrm beh extractors tables pdf_name page_num =
     (if escaped then create_error_card page_num pdf_name
      else fst (process_page cfg nrm beh extractors tables pdf_name page_num))"

section \<open>am\_common: the dataset store\<close>

definition VERSION :: string where "VERSION = ''2.0.0''"
definition PRODUCT_NAME :: string where "PRODUCT_NAME = ''archivist magika''"

definition DATASET_BEGIN :: string where "DATASET_BEGIN = ''===DATASET_BEGIN===''"
definition DATASET_END :: string where "DATASET_END = ''===DATASET_END===''"

definition HEADER_ID :: string where "HEADER_ID = ''__header__''"
definition AUDIT_ID :: string where "AUDIT_ID = ''__audit__''"
definition FOOTER_ID :: string where "FOOTER_ID = ''__footer__''"

definition REQUIRED_FIELDS :: "(string \<times> string list) list" where
  "REQUIRED_FIELDS =
     [(''structural'', [''segment_id'', ''segment'', ''page_num'']),
      (''structured'', [''segment_id'', ''segment'', ''page_num'', ''chapter_title'', ''section_title'']),
      (''summarized'', [''segment_id'', ''segment'', ''page_num'', ''l1_summary'', ''l2_summary'']),
      (''extended'', [''segment_id'', ''segment'', ''page_num'', ''prev_page'', ''next_page'']),
      (''final'', [''segment_id'', ''segment'', ''page_num'']),
      (''chunks'', [''chunk_id'', ''text'', ''tokens'', ''metadata''])]"

text \<open>
  \<^verbatim>\<open>DatasetIO.validate_structure\<close>.  \<open>stage\<close> is \<open>None\<close> for Python's \<^verbatim>\<open>None\<close>.  The
  messages are the source's f-strings.
\<close>

definition header_errors :: "jdict \<Rightarrow> string list" where
  "header_errors header =
     (if header = [] then [''Missing header'']
      else concat (map (\<lambda>field.
             if \<not> has_key header field \<and> (field = ''book'' \<and> \<not> has_key header ''title'')
             then (if \<not> has_key header ''book'' \<and> \<not> has_key header ''title''
                   then [''Header missing both '' @ quoted ''book'' @ '' and '' @ quoted ''title'']
                   else [])
             else [])
           [''book'', ''title'', ''source_file'']))"

definition py_str :: "jval \<Rightarrow> string" where
  "py_str v = (case v of JStr s \<Rightarrow> s | _ \<Rightarrow> '''')"

definition card_errors :: "string list \<Rightarrow> nat \<Rightarrow> jdict \<Rightarrow> string list" where
  "card_errors required_fields i c =
     concat (map (\<lambda>field.
               if \<not> has_key c field
               then [''Card '' @ str_of_nat i @ '': missing required field '' @ quoted field]
               else [])
             required_fields)
     @ (case map_of c ''segment_id'' of
          Some sid \<Rightarrow>
            if sid \<in> set [JStr HEADER_ID, JStr AUDIT_ID, JStr FOOTER_ID]
            then [''Card '' @ str_of_nat i @ '': invalid segment_id '' @ quoted (py_str sid)
                    @ '' (reserved)'']
            else []
        | None \<Rightarrow> [])"

definition validate_structure :: "jdict \<Rightarrow> jdict list \<Rightarrow> string option \<Rightarrow> string list" where
  "validate_structure header cards stage =
     header_errors header
     @ (if cards = [] then [''No cards found'']
        else (let required_fields =
                    (case stage of
                       None \<Rightarrow> [''segment_id'', ''segment'']
                     | Some s \<Rightarrow> (case map_of REQUIRED_FIELDS s of
                                   Some fs \<Rightarrow> fs
                                 | None \<Rightarrow> [''segment_id'', ''segment'']))
              in concat (map (\<lambda>(i, c). card_errors required_fields i c) (enumerate 0 cards))))"

section \<open>am\_common: saving and loading a dataset file\<close>

subsection \<open>String operations of the Python library\<close>

text \<open>
  \<^verbatim>\<open>str.find\<close>: the index of the first occurrence of \<open>sep\<close>.  \<open>contains\<close> is the
  operator \<^verbatim>\<open>in\<close>, \<open>after_first\<close> is \<^verbatim>\<open>s.split(sep, 1)[1]\<close> (\<open>None\<close> where Python raises
  IndexError) and \<open>before_first\<close> is \<^verbatim>\<open>s.split(sep, 1)[0]\<close>.
\<close>

fun find_sub :: "string \<Rightarrow> string \<Rightarrow> nat option" where
  "find_sub sep [] = (if sep = [] then Some 0 else None)"
| "find_sub sep (c # s) =
     (if take (length sep) (c # s) = sep then Some 0 else map_option Suc (find_sub sep s))"

definition contains :: "string \<Rightarrow> string \<Rightarrow> bool" where
  "contains sep s = (find_sub sep s \<noteq> None)"

definition after_first :: "string \<Rightarrow> string \<Rightarrow> string option" where
  "after_first sep s = map_option (\<lambda>i. drop (i + length sep) s) (find_sub sep s)"

definition before_first :: "string \<Rightarrow> string \<Rightarrow> string" where
  "before_first sep s = (case find_sub sep s of Some i \<Rightarrow> take i s | None \<Rightarrow> s)"

text \<open>
  \<^verbatim>\<open>str.splitlines()\<close>: the line boundaries with code points up to 255 are line feed,
  carriage return (with a following line feed as one boundary), vertical tab, form feed,
  the separators \<open>0x1C\<close> to \<open>0x1E\<close> and next line \<open>0x85\<close>.  \<open>cur\<close> is the line being read.
\<close>

definition line_feed :: char where "line_feed = CHR 0x0A"

definition is_linebreak :: "char \<Rightarrow> bool" where
  "is_linebreak c = (of_char c \<in> {10, 11, 12, 13, 28, 29, 30, 133 :: nat})"

function splitlines_from :: "string \<Rightarrow> string \<Rightarrow> string list" where
  "splitlines_from cur [] = (if cur = [] then [] else [cur])"
| "splitlines_from cur (c # s) =
     (if c = CHR 0x0D \<and> s \<noteq> [] \<and> hd s = line_feed then cur # splitlines_from [] (tl s)
      else if is_linebreak c then cur # splitlines_from [] s
      else splitlines_from (cur @ [c]) s)"
  by pat_completeness auto

termination
  by (relation "measure (\<lambda>(cur, s). length s)") auto

definition splitlines :: "string \<Rightarrow> string list" where
  "splitlines s = splitlines_from [] s"

subsection \<open>The collaborators of the store\<close>

text \<open>
  \<^verbatim>\<open>json.dumps(obj, ensure_ascii=False)\<close> and \<^verbatim>\<open>json.loads\<close> are the parameters \<open>dumps\<close>
  and \<open>loads\<close> (\<open>None\<close> for JSONDecodeError); the SHA-256 digest in hexadecimal of the UTF-8
  encoding of a text is the parameter \<open>sha256_hex\<close>.  The three readings of the clock in
  one \<^verbatim>\<open>save\<close> are the fields of \<open>clock\<close>.
\<close>

record clock =
  now_header :: string
  now_audit :: string
  now_footer :: string

text \<open>\<^verbatim>\<open>manifest_sha256\<close>: every line is fed to the digest followed by a line feed.\<close>

definition manifest_sha256 :: "(string \<Rightarrow> string) \<Rightarrow> string list \<Rightarrow> string" where
  "manifest_sha256 sha256_hex lines = sha256_hex (concat (map (\<lambda>line. line @ [line_feed]) lines))"

subsection \<open>DatasetIO.save\<close>

definition get_default :: "jdict \<Rightarrow> string \<Rightarrow> jval \<Rightarrow> jval" where
  "get_default d k v = (case map_of d k of Some x \<Rightarrow> x | None \<Rightarrow> v)"

text \<open>The header and the audit as \<^verbatim>\<open>save\<close> completes them, and the footer it writes.\<close>

definition saved_header :: "clock \<Rightarrow> jdict \<Rightarrow> jdict" where
  "saved_header clk header =
     (let h1 = AList.update ''segment_id'' (JStr HEADER_ID) header;
          h2 = AList.update ''version'' (get_default h1 ''version'' (JStr VERSION)) h1;
          h3 = AList.update ''product'' (get_default h2 ''product'' (JStr PRODUCT_NAME)) h2
      in AList.update ''created_at'' (get_default h3 ''created_at'' (JStr (now_header clk))) h3)"

definition saved_audit :: "clock \<Rightarrow> jdict \<Rightarrow> jdict" where
  "saved_audit clk audit =
     (let a1 = AList.update ''segment_id'' (JStr AUDIT_ID) audit
      in AList.update ''created_at'' (get_default a1 ''created_at'' (JStr (now_audit clk))) a1)"

definition body_lines :: "(jdict \<Rightarrow> string) \<Rightarrow> clock \<Rightarrow> jdict \<Rightarrow> jdict list \<Rightarrow> jdict option \<Rightarrow> string list" where
  "body_lines dumps clk header cards audit =
     [dumps (saved_header clk header)] @ map dumps cards @
     (case audit of Some a \<Rightarrow> [dumps (saved_audit clk a)] | None \<Rightarrow> [])"

definition saved_footer :: "(string \<Rightarrow> string) \<Rightarrow> clock \<Rightarrow> string list \<Rightarrow> nat \<Rightarrow> jdict option \<Rightarrow> jdict" where
  "saved_footer sha256_hex clk lines card_count footer =
     (let footer_data =
            [(''segment_id'', JStr FOOTER_ID),
             (''manifest_sha256'', JStr (manifest_sha256 sha256_hex lines)),
             (''created_at'', JStr (now_footer clk)),
             (''version'', JStr VERSION),
             (''product'', JStr PRODUCT_NAME),
             (''card_count'', JInt (int card_count))]
      in case footer of Some f \<Rightarrow> dict_update f footer_data | None \<Rightarrow> footer_data)"

text \<open>
  \<^verbatim>\<open>DatasetIO.save\<close>: the result is the text written to the file, or the ValueError of a
  failed validation.
\<close>

definition save :: "(jdict \<Rightarrow> string) \<Rightarrow> (string \<Rightarrow> string) \<Rightarrow> clock \<Rightarrow> jdict \<Rightarrow> jdict list
    \<Rightarrow> jdict option \<Rightarrow> jdict option \<Rightarrow> bool \<Rightarrow> py_error + string" where
  "save dumps sha256_hex clk header cards audit footer validate =
     (if validate \<and> validate_structure header cards None \<noteq> []
      then Inl ValueError
      else (let lines = body_lines dumps clk header cards audit;
                footer' = saved_footer sha256_hex clk lines (length cards) footer
            in Inr (DATASET_BEGIN @ [line_feed] @
                    concat (map (\<lambda>line. line @ [line_feed]) lines) @
                    dumps footer' @ [line_feed] @
                    DATASET_END @ [line_feed])))"

subsection \<open>DatasetIO.load\<close>

text \<open>
  The loop over the lines of the body.  A line that does not parse is reported and
  skipped; a line that parses to a value other than an object has no \<^verbatim>\<open>get\<close>, and the
  AttributeError is not caught.
\<close>

fun parse_lines :: "(string \<Rightarrow> jval option) \<Rightarrow> string list \<Rightarrow> jdict \<times> jdict list \<times> jdict \<times> jdict
    \<Rightarrow> py_error + jdict \<times> jdict list \<times> jdict \<times> jdict" where
  "parse_lines loads [] state = Inr state"
| "parse_lines loads (line # rest) (header, cards, audit, footer) =
     (if strip line = [] then parse_lines loads rest (header, cards, audit, footer)
      else (case loads line of
              None \<Rightarrow> parse_lines loads rest (header, cards, audit, footer)
            | Some (JObj obj) \<Rightarrow>
                (let sid = map_of obj ''segment_id'' in
                 if sid = Some (JStr HEADER_ID) then parse_lines loads rest (obj, cards, audit, footer)
                 else if sid = Some (JStr AUDIT_ID) then parse_lines loads rest (header, cards, obj, footer)
                 else if sid = Some (JStr FOOTER_ID) then parse_lines loads rest (header, cards, audit, obj)
                 else parse_lines loads rest (header, cards @ [obj], audit, footer))
            | Some _ \<Rightarrow> Inl AttributeError))"

text \<open>
  \<^verbatim>\<open>cards.sort(key=lambda c: c.get('segment_id', ''))\<close>, a stable sort.  The model covers
  keys that are strings, compared by code points; with fewer than two cards nothing is
  compared; for other keys it answers TypeError, which Python raises when two keys cannot
  be compared.
\<close>

definition sort_id :: "jdict \<Rightarrow> string option" where
  "sort_id c =
     (case map_of c ''segment_id'' of
        None \<Rightarrow> Some ''''
      | Some (JStr s) \<Rightarrow> Some s
      | Some _ \<Rightarrow> None)"

definition sort_cards :: "jdict list \<Rightarrow> py_error + jdict list" where
  "sort_cards cards =
     (if length cards < 2 then Inr cards
      else if list_all (\<lambda>c. sort_id c \<noteq> None) cards
      then Inr (sort_key (\<lambda>c. case sort_id c of Some s \<Rightarrow> s | None \<Rightarrow> '''') cards)
      else Inl TypeError)"

text \<open>The lines that \<^verbatim>\<open>load\<close> reads between the markers.\<close>

definition read_body :: "string \<Rightarrow> string list" where
  "read_body raw =
     (case after_first DATASET_BEGIN raw of
        Some rest \<Rightarrow> splitlines (strip (before_first DATASET_END rest))
      | None \<Rightarrow> [])"

text \<open>
  \<^verbatim>\<open>DatasetIO.load\<close>.  \<open>file\<close> is the text of the file, \<open>None\<close> when the path does not
  exist.  With \<open>validate\<close> the structure is validated and the errors are logged as
  warnings, which does not change the result.  No step compares the footer's
  \<open>manifest_sha256\<close> with the body.
\<close>

definition load :: "(string \<Rightarrow> jval option) \<Rightarrow> string option \<Rightarrow> bool
    \<Rightarrow> py_error + jdict \<times> jdict list \<times> jdict \<times> jdict" where
  "load loads file validate =
     (case file of
        None \<Rightarrow> Inl FileNotFoundError
      | Some raw \<Rightarrow>
          if \<not> contains DATASET_BEGIN raw \<or> \<not> contains DATASET_END raw then Inl ValueError
          else (case parse_lines loads (read_body raw) ([], [], [], []) of
                  Inl e \<Rightarrow> Inl e
                | Inr (header, cards, audit, footer) \<Rightarrow>
                    (case sort_cards cards of
                       Inl e \<Rightarrow> Inl e
                     | Inr sorted_cards \<Rightarrow>
                         (let errors = (if validate then validate_structure header sorted_cards None
                                        else [])
                          in Inr (header, sorted_cards, audit, footer)))))"

section \<open>Notions used to state the properties of the chain\<close>

text \<open>
  \<open>accepts\<close> is the acceptance test of the retry loop on one outcome: the normalised
  text is not empty and has at least 10 characters after stripping.
\<close>

definition accepts :: "(string \<Rightarrow> string) \<Rightarrow> outcome \<Rightarrow> bool" where
  "accepts nrm out =
     (case out of
        Raised \<Rightarrow> False
      | Returned text0 c \<Rightarrow>
          (let text = (if text0 \<noteq> [] then nrm text0 else text0)
           in text \<noteq> [] \<and> 10 \<le> length (strip text)))"

text \<open>The text that \<^verbatim>\<open>_try_non_ocr_preview\<close> returns, and the strategy that produced it.\<close>

definition preview_text :: "behaviour \<Rightarrow> extractor_name list \<Rightarrow> string" where
  "preview_text beh extractors = fst (try_non_ocr_preview beh extractors [])"

definition preview_source :: "behaviour \<Rightarrow> extractor_name list \<Rightarrow> extractor_name option" where
  "preview_source beh extractors = find (\<lambda>n. n \<noteq> Ocr \<and> beh n \<noteq> Raised) extractors"

text \<open>Whether the retry loop called the OCR extractor.\<close>

definition ocr_invoked :: "event list \<Rightarrow> bool" where
  "ocr_invoked tr = list_ex (\<lambda>e. case e of Attempt n k \<Rightarrow> n = Ocr | _ \<Rightarrow> False) tr"

text \<open>
  The calls of a strategy in a log: those made by the retry loop, those made by
  \<^verbatim>\<open>_try_non_ocr_preview\<close>, and all of them.
\<close>

fun is_attempt :: "extractor_name \<Rightarrow> event \<Rightarrow> bool" where
  "is_attempt n (Attempt m k) = (m = n)"
| "is_attempt n (Preview m) = False"
| "is_attempt n (Sleep d) = False"

fun is_preview :: "extractor_name \<Rightarrow> event \<Rightarrow> bool" where
  "is_preview n (Attempt m k) = False"
| "is_preview n (Preview m) = (m = n)"
| "is_preview n (Sleep d) = False"

definition attempt_count :: "extractor_name \<Rightarrow> event list \<Rightarrow> nat" where
  "attempt_count n tr = length (filter (is_attempt n) tr)"

definition preview_count :: "extractor_name \<Rightarrow> event list \<Rightarrow> nat" where
  "preview_count n tr = length (filter (is_preview n) tr)"

definition call_count :: "extractor_name \<Rightarrow> event list \<Rightarrow> nat" where
  "call_count n tr = attempt_count n tr + preview_count n tr"

text \<open>
  The retry loop of \<^verbatim>\<open>extract\<close> gets to the strategy \<open>name\<close>: it is in the chain, no
  strategy before it had its result accepted, and if OCR stands before it or is the
  strategy itself, the preview needed OCR (otherwise \<^verbatim>\<open>extract\<close> returns at OCR).
\<close>

definition reached :: "blank_config \<Rightarrow> (string \<Rightarrow> string) \<Rightarrow> behaviour \<Rightarrow> extractor_name list \<Rightarrow> nat
    \<Rightarrow> extractor_name \<Rightarrow> bool" where
  "reached cfg nrm beh extractors page_num name =
     (name \<in> set extractors \<and>
      list_all (\<lambda>n. \<not> accepts nrm (beh n)) (takeWhile (\<lambda>n. n \<noteq> name) extractors) \<and>
      (name = Ocr \<or> Ocr \<in> set (takeWhile (\<lambda>n. n \<noteq> name) extractors)
         \<longrightarrow> needs_ocr cfg (preview_text beh extractors) page_num))"

text \<open>
  The preview calls the strategy \<open>name\<close>: the walk gets to OCR, where the preview is
  taken, \<open>name\<close> is a non-OCR strategy of the chain, and every non-OCR strategy before
  it raises.
\<close>

definition previewed :: "(string \<Rightarrow> string) \<Rightarrow> behaviour \<Rightarrow> extractor_name list \<Rightarrow> extractor_name \<Rightarrow> bool" where
  "previewed nrm beh extractors name =
     (name \<noteq> Ocr \<and> name \<in> set extractors \<and> Ocr \<in> set extractors \<and>
      list_all (\<lambda>n. \<not> accepts nrm (beh n)) (takeWhile (\<lambda>n. n \<noteq> Ocr) extractors) \<and>
      list_all (\<lambda>n. n = Ocr \<or> beh n = Raised) (takeWhile (\<lambda>n. n \<noteq> name) extractors))"

subsection \<open>Sample inputs\<close>

definition no_normalisation :: "string \<Rightarrow> string" where
  "no_normalisation s = s"

definition watermark_only :: string where
  "watermark_only = ''oceanofpdf.com oceanofpdf.com''"

text \<open>A normaliser that deletes the watermark text, as \<^verbatim>\<open>remove_common_watermarks\<close> does.\<close>

definition drops_watermark :: "string \<Rightarrow> string" where
  "drops_watermark s = (if s = watermark_only then [] else s)"

definition always_raises :: behaviour where
  "always_raises n = Raised"

definition only_pdfminer_returns :: "string \<Rightarrow> behaviour" where
  "only_pdfminer_returns t n = (if n = Pdfminer then Returned t None else Raised)"

definition natives_return :: "string \<Rightarrow> behaviour" where
  "natives_return t n = (if n = Ocr then Raised else Returned t None)"

definition seventy_chars :: string where
  "seventy_chars = ''0123456789012345678901234567890123456789012345678901234567890123456789''"

definition card_a :: jdict where
  "card_a = [(''segment_id'', JStr ''00001''), (''segment'', JStr ''first page'')]"

definition card_a_again :: jdict where
  "card_a_again = [(''segment_id'', JStr ''00001''), (''segment'', JStr ''second page'')]"

definition card_reserved :: jdict where
  "card_reserved = [(''segment_id'', JStr ''__audit__''), (''segment'', JStr ''text'')]"

definition header_min :: jdict where
  "header_min = [(''book'', JStr ''book'')]"

section \<open>am\_extended: text analysis\<close>

text \<open>
  \<^verbatim>\<open>str.lower()\<close> on the code points 0..255: the ASCII capitals and the capitals
  \<open>0xC0..0xDE\<close> other than the multiplication sign move up by 32.
\<close>

definition lower_char :: "char \<Rightarrow> char" where
  "lower_char c =
     (let n = (of_char c :: nat) in
      if (65 \<le> n \<and> n \<le> 90) \<or> (192 \<le> n \<and> n \<le> 222 \<and> n \<noteq> 215) then char_of (n + 32) else c)"

definition lower :: "string \<Rightarrow> string" where
  "lower s = map lower_char s"

text \<open>
  \<^verbatim>\<open>WORD_RE\<close> matches two or more characters out of the ASCII letters, the digits
  and the two Cyrillic ranges.  The Cyrillic ranges lie outside the alphabet of
  the model, which leaves the ASCII letters and digits.  \<^verbatim>\<open>findall\<close> returns the
  maximal runs of such characters that are at least two characters long; \<open>cur\<close> is the
  run being read.
\<close>

definition is_word_char :: "char \<Rightarrow> bool" where
  "is_word_char c =
     (let n = (of_char c :: nat) in
      (65 \<le> n \<and> n \<le> 90) \<or> (97 \<le> n \<and> n \<le> 122) \<or> (48 \<le> n \<and> n \<le> 57))"

fun word_runs :: "string \<Rightarrow> string \<Rightarrow> string list" where
  "word_runs cur [] = (if 2 \<le> length cur then [cur] else [])"
| "word_runs cur (c # cs) =
     (if is_word_char c then word_runs (cur @ [c]) cs
      else (if 2 \<le> length cur then [cur] else []) @ word_runs [] cs)"

definition findall_words :: "string \<Rightarrow> string list" where
  "findall_words s = word_runs [] s"

text \<open>
  \<^verbatim>\<open>STOP_WORDS\<close>: the English entries.  The Russian entries are written in Cyrillic, so no
  token of the model equals one of them.
\<close>

definition STOP_WORDS :: "string list" where
  "STOP_WORDS =
     [''a'', ''an'', ''the'', ''and'', ''or'', ''for'', ''to'', ''of'', ''in'', ''on'', ''at'', ''by'',
      ''as'', ''is'', ''are'', ''was'', ''were'', ''be'', ''been'', ''being'',
      ''this'', ''that'', ''those'', ''these'', ''with'', ''from'', ''into'', ''over'', ''under'',
      ''about'', ''across'', ''between'',
      ''among'', ''through'', ''during'', ''before'', ''after'', ''above'', ''below'', ''not'', ''no'',
      ''nor'', ''so'', ''such'', ''it'',
      ''its'', ''their'', ''our'', ''your'', ''my'', ''we'', ''you'', ''they'', ''he'', ''she'', ''his'',
      ''her'', ''them'', ''us'']"

text \<open>\<^verbatim>\<open>TextAnalyzer.tokenize\<close>.\<close>

definition tokenize :: "string \<Rightarrow> string list" where
  "tokenize text = filter (\<lambda>w. w \<notin> set STOP_WORDS) (findall_words (lower text))"

text \<open>
  \<^verbatim>\<open>TextAnalyzer.jaccard_similarity\<close>.  The quotient of the two counts is a float in the
  source and the exact rational here; 0 and 1 are the same in both.
\<close>

definition jaccard_similarity :: "string list \<Rightarrow> string list \<Rightarrow> rat" where
  "jaccard_similarity tokens_a tokens_b =
     (if tokens_a = [] \<and> tokens_b = [] then 1
      else if tokens_a = [] \<or> tokens_b = [] then 0
      else (let set_a = set tokens_a; set_b = set tokens_b;
                intersection = card (set_a \<inter> set_b);
                union = card (set_a \<union> set_b)
            in if 0 < union then of_nat intersection / of_nat union else 0))"

text \<open>
  \<^verbatim>\<open>str.split()\<close> without arguments: the maximal runs of characters that are not
  whitespace.  \<open>join_space\<close> is \<^verbatim>\<open>' '.join\<close>.
\<close>

fun split_runs :: "string \<Rightarrow> string \<Rightarrow> string list" where
  "split_runs cur [] = (if cur \<noteq> [] then [cur] else [])"
| "split_runs cur (c # cs) =
     (if is_space c then (if cur \<noteq> [] then [cur] else []) @ split_runs [] cs
      else split_runs (cur @ [c]) cs)"

definition split_ws :: "string \<Rightarrow> string list" where
  "split_ws s = split_runs [] s"

fun join_space :: "string list \<Rightarrow> string" where
  "join_space [] = []"
| "join_space [w] = w"
| "join_space (w # ws) = w @ '' '' @ join_space ws"

definition normalized_text :: "string \<Rightarrow> string" where
  "normalized_text text = join_space (split_ws (lower text))"

text \<open>
  \<^verbatim>\<open>TextAnalyzer.text_hash\<close>.  The MD5 digest of the UTF-8 encoding is the parameter
  \<open>md5\<close>.
\<close>

definition text_hash :: "(string \<Rightarrow> string) \<Rightarrow> string \<Rightarrow> string" where
  "text_hash md5 text = md5 (normalized_text text)"

section \<open>am\_extended: duplicate detection\<close>

text \<open>
  Reading the fields of a card.  \<^verbatim>\<open>card.get('segment', '')\<close> is followed by
  \<^verbatim>\<open>.strip()\<close> or \<^verbatim>\<open>.lower()\<close>, which raise AttributeError unless the value is a
  string.  Page numbers are read with \<^verbatim>\<open>card.get('page_num', 0)\<close>; the model covers cards
  whose page number is an integer, as \<^verbatim>\<open>_process_page\<close> writes it, and answers
  \<open>PageNumNotInt\<close> for any other value.
\<close>

definition get_segment :: "jdict \<Rightarrow> py_error + string" where
  "get_segment c =
     (case map_of c ''segment'' of
        None \<Rightarrow> Inr ''''
      | Some (JStr s) \<Rightarrow> Inr s
      | Some _ \<Rightarrow> Inl AttributeError)"

definition get_page_num :: "jdict \<Rightarrow> py_error + int" where
  "get_page_num c =
     (case map_of c ''page_num'' of
        None \<Rightarrow> Inr 0
      | Some (JInt n) \<Rightarrow> Inr n
      | Some _ \<Rightarrow> Inl PageNumNotInt)"

record dup_group =
  pages :: "int list"
  similarity :: rat
  dup_type :: string

text \<open>
  The first pass of \<^verbatim>\<open>detect_duplicates\<close>: \<open>seen_hashes\<close> is the dictionary from hashes to
  page lists, in insertion order.
\<close>

fun first_pass :: "(string \<Rightarrow> string) \<Rightarrow> jdict list \<Rightarrow> (string \<times> int list) list
    \<Rightarrow> py_error + (string \<times> int list) list" where
  "first_pass md5 [] seen_hashes = Inr seen_hashes"
| "first_pass md5 (c # cards) seen_hashes =
     (case get_segment c of
        Inl e \<Rightarrow> Inl e
      | Inr text \<Rightarrow>
          if length (strip text) < 50 then first_pass md5 cards seen_hashes
          else (case get_page_num c of
                  Inl e \<Rightarrow> Inl e
                | Inr page_num \<Rightarrow>
                    (let h = text_hash md5 text in
                     case map_of seen_hashes h of
                       Some ps \<Rightarrow> first_pass md5 cards (AList.update h (ps @ [page_num]) seen_hashes)
                     | None \<Rightarrow> first_pass md5 cards (AList.update h [page_num] seen_hashes))))"

definition collect_exact :: "(string \<times> int list) list \<Rightarrow> dup_group list" where
  "collect_exact seen_hashes =
     map (\<lambda>(h, ps). \<lparr>pages = sort ps, similarity = 1, dup_type = ''exact''\<rparr>)
       (filter (\<lambda>(h, ps). 1 < length ps) seen_hashes)"

definition detect_duplicates :: "(string \<Rightarrow> string) \<Rightarrow> jdict list \<Rightarrow> py_error + dup_group list" where
  "detect_duplicates md5 cards =
     (case first_pass md5 cards [] of
        Inl e \<Rightarrow> Inl e
      | Inr seen_hashes \<Rightarrow> Inr (collect_exact seen_hashes))"

text \<open>
  \<^verbatim>\<open>mark_duplicates\<close>.  The cards are changed in place in the source; the model returns
  the new card list together with the count.  \<open>duplicate_pages\<close> collects
  \<^verbatim>\<open>pages[1:]\<close> of every group; \<open>first_group\<close> is the inner loop that stops at the first
  group containing the page.
\<close>

definition duplicate_pages :: "dup_group list \<Rightarrow> int set" where
  "duplicate_pages duplicates = set (concat (map (\<lambda>g. tl (pages g)) duplicates))"

definition first_group :: "dup_group list \<Rightarrow> int \<Rightarrow> dup_group option" where
  "first_group duplicates page_num = find (\<lambda>g. page_num \<in> set (pages g)) duplicates"

definition mark_card :: "dup_group list \<Rightarrow> jdict \<Rightarrow> py_error + jdict \<times> nat" where
  "mark_card duplicates c =
     (case get_page_num c of
        Inl e \<Rightarrow> Inl e
      | Inr page_num \<Rightarrow>
          if page_num \<in> duplicate_pages duplicates
          then (let c1 = AList.update ''is_duplicate'' (JBool True) c;
                    c2 = (case first_group duplicates page_num of
                            Some g \<Rightarrow> AList.update ''duplicate_of'' (JInt (hd (pages g))) c1
                          | None \<Rightarrow> c1)
                in Inr (c2, 1))
          else Inr (c, 0))"

fun mark_duplicates :: "jdict list \<Rightarrow> dup_group list \<Rightarrow> py_error + jdict list \<times> nat" where
  "mark_duplicates [] duplicates = Inr ([], 0)"
| "mark_duplicates (c # cards) duplicates =
     (case mark_card duplicates c of
        Inl e \<Rightarrow> Inl e
      | Inr (c', k) \<Rightarrow>
          (case mark_duplicates cards duplicates of
             Inl e \<Rightarrow> Inl e
           | Inr (cards', marked_count) \<Rightarrow> Inr (c' # cards', k + marked_count)))"

section \<open>am\_extended: continuity audit\<close>

record gap =
  from_page :: jval
  to_page :: jval
  overlap :: rat

record continuity_report =
  gaps :: "gap list"
  gap_count :: nat
  gap_ratio :: rat
  avg_overlap :: rat
  threshold :: rat

text \<open>\<^verbatim>\<open>d.get(k)\<close> with Python's \<^verbatim>\<open>None\<close> as \<open>JNull\<close>.\<close>

definition get_or_null :: "jdict \<Rightarrow> string \<Rightarrow> jval" where
  "get_or_null d k = (case map_of d k of Some v \<Rightarrow> v | None \<Rightarrow> JNull)"

text \<open>
  \<^verbatim>\<open>curr_card.setdefault('flags', {})['continuity_gap'] = True\<close>: a value of \<open>flags\<close>
  that is not a dictionary does not support the assignment.
\<close>

definition set_continuity_gap :: "jdict \<Rightarrow> py_error + jdict" where
  "set_continuity_gap c =
     (case map_of c ''flags'' of
        None \<Rightarrow> Inr (AList.update ''flags'' (JObj [(''continuity_gap'', JBool True)]) c)
      | Some (JObj flags) \<Rightarrow>
          Inr (AList.update ''flags'' (JObj (AList.update ''continuity_gap'' (JBool True) flags)) c)
      | Some _ \<Rightarrow> Inl TypeError)"

text \<open>
  The body of the loop of \<^verbatim>\<open>audit_continuity\<close> for one pair of adjacent cards.  The
  result is the current card after the step, the gap appended to \<open>gaps\<close> if any, and the
  similarity appended to \<open>overlaps\<close> if any.
\<close>

definition audit_pair :: "rat \<Rightarrow> jdict \<Rightarrow> jdict \<Rightarrow> py_error + jdict \<times> gap option \<times> rat option" where
  "audit_pair overlap_threshold prev_card curr_card =
     (if truthy (case map_of curr_card ''is_duplicate'' of Some v \<Rightarrow> v | None \<Rightarrow> JBool False)
      then Inr (curr_card, None, None)
      else (case get_segment prev_card of
              Inl e \<Rightarrow> Inl e
            | Inr prev_text \<Rightarrow>
                (case get_segment curr_card of
                   Inl e \<Rightarrow> Inl e
                 | Inr curr_text \<Rightarrow>
                     (let prev_tokens = tokenize prev_text; curr_tokens = tokenize curr_text in
                      if prev_tokens \<noteq> [] \<and> curr_tokens \<noteq> []
                      then (let similarity = jaccard_similarity prev_tokens curr_tokens in
                            if similarity < overlap_threshold
                            then (case set_continuity_gap curr_card of
                                    Inl e \<Rightarrow> Inl e
                                  | Inr flagged \<Rightarrow>
                                      Inr (flagged,
                                           Some \<lparr>from_page = get_or_null prev_card ''page_num'',
                                                 to_page = get_or_null curr_card ''page_num'',
                                                 overlap = round3 similarity\<rparr>,
                                           Some similarity))
                            else Inr (curr_card, None, Some similarity))
                      else Inr (curr_card, None, None)))))"

text \<open>
  The loop \<^verbatim>\<open>for i in range(1, len(cards))\<close>: \<open>prev_card\<close> is \<^verbatim>\<open>cards[i - 1]\<close> as the
  previous step left it.
\<close>

fun audit_loop :: "rat \<Rightarrow> jdict \<Rightarrow> jdict list \<Rightarrow> py_error + jdict list \<times> gap list \<times> rat list" where
  "audit_loop overlap_threshold prev_card [] = Inr ([], [], [])"
| "audit_loop overlap_threshold prev_card (curr_card # rest) =
     (case audit_pair overlap_threshold prev_card curr_card of
        Inl e \<Rightarrow> Inl e
      | Inr (curr', g, ov) \<Rightarrow>
          (case audit_loop overlap_threshold curr' rest of
             Inl e \<Rightarrow> Inl e
           | Inr (cards', gs, overlaps) \<Rightarrow>
               Inr (curr' # cards', (case g of Some x \<Rightarrow> [x] | None \<Rightarrow> []) @ gs,
                    (case ov of Some x \<Rightarrow> [x] | None \<Rightarrow> []) @ overlaps)))"

definition make_report :: "rat \<Rightarrow> nat \<Rightarrow> gap list \<Rightarrow> rat list \<Rightarrow> continuity_report" where
  "make_report overlap_threshold n gs overlaps =
     \<lparr>gaps = gs,
      gap_count = length gs,
      gap_ratio = of_nat (length gs) / of_int (max 1 (int n - 1)),
      avg_overlap = round3 (if overlaps \<noteq> [] then sum_list overlaps / of_nat (length overlaps) else 0),
      threshold = overlap_threshold\<rparr>"

definition audit_continuity :: "rat \<Rightarrow> jdict list \<Rightarrow> py_error + jdict list \<times> continuity_report" where
  "audit_continuity overlap_threshold cards =
     (case cards of
        [] \<Rightarrow> Inr ([], make_report overlap_threshold 0 [] [])
      | first # rest \<Rightarrow>
          (case audit_loop overlap_threshold first rest of
             Inl e \<Rightarrow> Inl e
           | Inr (cards', gs, overlaps) \<Rightarrow>
               Inr (first # cards', make_report overlap_threshold (length cards) gs overlaps)))"

section \<open>Notions used to state the properties of the audits\<close>

text \<open>
  A card is typed when its \<open>segment\<close> is a string, its \<open>page_num\<close> an integer and its
  \<open>flags\<close> a dictionary, each of them possibly absent.
\<close>

definition typed_card :: "jdict \<Rightarrow> bool" where
  "typed_card c =
     ((case map_of c ''segment'' of None \<Rightarrow> True | Some (JStr s) \<Rightarrow> True | Some _ \<Rightarrow> False) \<and>
      (case map_of c ''page_num'' of None \<Rightarrow> True | Some (JInt n) \<Rightarrow> True | Some _ \<Rightarrow> False) \<and>
      (case map_of c ''flags'' of None \<Rightarrow> True | Some (JObj d) \<Rightarrow> True | Some _ \<Rightarrow> False))"

text \<open>The text and the page number that the passes read from a card.\<close>

definition segment_of :: "jdict \<Rightarrow> string" where
  "segment_of c = (case get_segment c of Inr s \<Rightarrow> s | Inl e \<Rightarrow> '''')"

definition page_of :: "jdict \<Rightarrow> int" where
  "page_of c = (case get_page_num c of Inr n \<Rightarrow> n | Inl e \<Rightarrow> 0)"

text \<open>\<^verbatim>\<open>curr_card.get('is_duplicate', False)\<close> as a truth value.\<close>

definition is_dup :: "jdict \<Rightarrow> bool" where
  "is_dup c = truthy (case map_of c ''is_duplicate'' of Some v \<Rightarrow> v | None \<Rightarrow> JBool False)"

text \<open>The pages that the first pass of the duplicate detection files under a hash.\<close>

definition long_enough :: "jdict \<Rightarrow> bool" where
  "long_enough c = (50 \<le> length (strip (segment_of c)))"

definition pages_with :: "(string \<Rightarrow> string) \<Rightarrow> string \<Rightarrow> jdict list \<Rightarrow> int list" where
  "pages_with md5 h cards =
     map page_of (filter (\<lambda>c. long_enough c \<and> text_hash md5 (segment_of c) = h) cards)"

subsection \<open>Sample inputs\<close>

definition page_alpha :: jdict where
  "page_alpha = [(''segment_id'', JStr ''00001''), (''page_num'', JInt 1),
                 (''segment'', JStr ''alpha beta gamma'')]"

definition page_alpha_again :: jdict where
  "page_alpha_again = [(''segment_id'', JStr ''00002''), (''page_num'', JInt 2),
                       (''segment'', JStr ''alpha beta gamma'')]"

definition page_delta :: jdict where
  "page_delta = [(''segment_id'', JStr ''00002''), (''page_num'', JInt 2),
                 (''segment'', JStr ''delta epsilon'')]"

definition page_blank :: jdict where
  "page_blank = [(''segment_id'', JStr ''00002''), (''page_num'', JInt 2), (''segment'', JStr '''')]"

definition page_stop_words :: jdict where
  "page_stop_words = [(''segment_id'', JStr ''00002''), (''page_num'', JInt 2),
                      (''segment'', JStr ''The a of - x'')]"

definition page_delta_flagged :: jdict where
  "page_delta_flagged = [(''segment_id'', JStr ''00002''), (''page_num'', JInt 2),
                 (''segment'', JStr ''delta epsilon''),
                 (''flags'', JObj [(''continuity_gap'', JBool True)])]"

text \<open>
  What the first pass leaves under a hash: the pages filed before, followed by the new
  ones; no entry when there is neither.
\<close>

definition filed :: "int list option \<Rightarrow> int list \<Rightarrow> int list option" where
  "filed old new =
     (case old of None \<Rightarrow> (if new = [] then None else Some new) | Some ps \<Rightarrow> Some (ps @ new))"

definition exact_group :: "(string \<Rightarrow> string) \<Rightarrow> jdict list \<Rightarrow> string \<Rightarrow> dup_group" where
  "exact_group md5 cards h =
     \<lparr>pages = sort (pages_with md5 h cards), similarity = 1, dup_type = ''exact''\<rparr>"

text \<open>
  The groups that \<^verbatim>\<open>detect_duplicates\<close> reports: one for every hash under which more
  than one page is filed.
\<close>

definition groups_of :: "(string \<Rightarrow> string) \<Rightarrow> jdict list \<Rightarrow> dup_group list \<Rightarrow> bool" where
  "groups_of md5 cards groups =
     (\<forall>g. (g \<in> set groups) =
          (\<exists>h. 1 < length (pages_with md5 h cards) \<and> g = exact_group md5 cards h))"

subsection \<open>Sample pages for the duplicate detection\<close>

text \<open>A digest without collisions stands for MD5 in the examples.\<close>

definition sample_digest :: "string \<Rightarrow> string" where
  "sample_digest s = s"

definition licence_text :: string where
  "licence_text = ''Permission is hereby granted, free of charge, to any person obtaining a copy''"

definition licence_text_respaced :: string where
  "licence_text_respaced =
     ''PERMISSION is hereby   granted, free of charge, to any person obtaining a copy ''"

definition other_text :: string where
  "other_text = ''The quick brown fox jumps over the lazy dog and keeps running far away''"

definition licence_page1 :: jdict where
  "licence_page1 = [(''segment_id'', JStr ''00001''), (''page_num'', JInt 1),
                    (''segment'', JStr licence_text)]"

definition licence_page2 :: jdict where
  "licence_page2 = [(''segment_id'', JStr ''00002''), (''page_num'', JInt 2),
                    (''segment'', JStr licence_text_respaced)]"

definition licence_page2_marked :: jdict where
  "licence_page2_marked = [(''segment_id'', JStr ''00002''), (''page_num'', JInt 2),
                    (''segment'', JStr licence_text_respaced),
                    (''is_duplicate'', JBool True), (''duplicate_of'', JInt 1)]"

definition other_page3 :: jdict where
  "other_page3 = [(''segment_id'', JStr ''00003''), (''page_num'', JInt 3),
                  (''segment'', JStr other_text)]"

text \<open>The first pages of two books in one merged dataset: both carry page number 1.\<close>

definition book_a_page1 :: jdict where
  "book_a_page1 = [(''segment_id'', JStr ''00001''), (''page_num'', JInt 1),
                   (''segment'', JStr licence_text), (''source_file'', JStr ''a.pdf'')]"

definition book_b_page1 :: jdict where
  "book_b_page1 = [(''segment_id'', JStr ''00001''), (''page_num'', JInt 1),
                   (''segment'', JStr licence_text), (''source_file'', JStr ''b.pdf'')]"

definition book_a_page1_marked :: jdict where
  "book_a_page1_marked = [(''segment_id'', JStr ''00001''), (''page_num'', JInt 1),
                   (''segment'', JStr licence_text), (''source_file'', JStr ''a.pdf''),
                   (''is_duplicate'', JBool True), (''duplicate_of'', JInt 1)]"

definition book_b_page1_marked :: jdict where
  "book_b_page1_marked = [(''segment_id'', JStr ''00001''), (''page_num'', JInt 1),
                   (''segment'', JStr licence_text), (''source_file'', JStr ''b.pdf''),
                   (''is_duplicate'', JBool True), (''duplicate_of'', JInt 1)]"

section \<open>run\_mvp: the pipeline orchestrator\<close>

text \<open>\<^verbatim>\<open>PipelineStage.ALL\<close>; stages are the strings of the source.\<close>

definition ALL_STAGES :: "string list" where
  "ALL_STAGES = [''structural'', ''structure_detect'', ''summarize'', ''extended'', ''finalize'',
                 ''chunk'', ''embed'']"

text \<open>\<^verbatim>\<open>list.index\<close>, with \<open>None\<close> where Python raises ValueError.\<close>

fun index_of :: "string \<Rightarrow> string list \<Rightarrow> nat option" where
  "index_of x [] = None"
| "index_of x (y # ys) = (if x = y then Some 0 else map_option Suc (index_of x ys))"

text \<open>\<^verbatim>\<open>_get_stage_sequence\<close>: the slice \<^verbatim>\<open>ALL[start_idx:end_idx + 1]\<close>.\<close>

definition get_stage_sequence :: "string \<Rightarrow> string \<Rightarrow> py_error + string list" where
  "get_stage_sequence start end_stage =
     (case index_of start ALL_STAGES of
        None \<Rightarrow> Inl ValueError
      | Some start_idx \<Rightarrow>
          (case index_of end_stage ALL_STAGES of
             None \<Rightarrow> Inl ValueError
           | Some end_idx \<Rightarrow>
               if end_idx < start_idx then Inl ValueError
               else Inr (drop start_idx (take (end_idx + 1) ALL_STAGES))))"

text \<open>\<^verbatim>\<open>_is_critical_stage\<close>.\<close>

definition is_critical_stage :: "string \<Rightarrow> bool" where
  "is_critical_stage stage = (stage \<in> {''structural'', ''finalize''})"

text \<open>
  The stage processors and the dataset validator are external.  A runner stands for
  \<^verbatim>\<open>_run_stage\<close>: given a stage and its input path it returns the output path or raises,
  with \<open>Inl\<close> of the exception's text.  A validator stands for
  \<^verbatim>\<open>DatasetValidator.validate_dataset\<close>: it raises or returns a dictionary, of which the
  orchestrator reads \<open>valid\<close> and \<open>error_count\<close> (\<open>None\<close> for a missing key).
\<close>

type_synonym runner = "string \<Rightarrow> string \<Rightarrow> string + string"

datatype validation = ValidatorRaised | ValidatorResult "bool option" "int option"

type_synonym validator = "string \<Rightarrow> string \<Rightarrow> validation"

text \<open>\<^verbatim>\<open>_validate_output\<close> with a validator present: an exception becomes an invalid result.\<close>

definition validate_output :: "validator \<Rightarrow> string \<Rightarrow> string \<Rightarrow> bool option \<times> int option" where
  "validate_output val stage output_path =
     (case val stage output_path of
        ValidatorRaised \<Rightarrow> (Some False, Some 1)
      | ValidatorResult valid error_count \<Rightarrow> (valid, error_count))"

datatype stage_status = Success string | Failed string

record pipeline_results =
  input :: string
  stages :: "(string \<times> stage_status) list"
  errors :: "(string \<times> string) list"
  warnings :: "(string \<times> int) list"
  status :: string

text \<open>
  The loop \<^verbatim>\<open>for stage in stages\<close> of \<^verbatim>\<open>run_single\<close>.  \<open>current_input\<close> is the variable
  of the source.  \<open>calls\<close> logs every call of the runner with the stage and the input it
  was given.  Reading \<^verbatim>\<open>validation_result['valid']\<close> from a result without that key
  raises KeyError inside the inner \<^verbatim>\<open>try\<close>, which only logs a warning.
\<close>

fun run_stages :: "bool \<Rightarrow> runner \<Rightarrow> validator \<Rightarrow> string list \<Rightarrow> string \<Rightarrow> pipeline_results
    \<Rightarrow> (string \<times> string) list \<Rightarrow> pipeline_results \<times> (string \<times> string) list" where
  "run_stages validate_stages run val [] current_input results calls = (results, calls)"
| "run_stages validate_stages run val (stage # rest) current_input results calls =
     (case run stage current_input of
        Inr stage_result \<Rightarrow>
          (let results1 =
                 (if validate_stages \<and> stage \<noteq> ''embed''
                  then (case validate_output val stage stage_result of
                          (Some False, error_count) \<Rightarrow>
                            results\<lparr>warnings := warnings results @
                               [(stage, case error_count of Some n \<Rightarrow> n | None \<Rightarrow> 0)]\<rparr>
                        | (Some True, error_count) \<Rightarrow> results
                        | (None, error_count) \<Rightarrow> results)
                  else results);
               results2 = results1\<lparr>stages := AList.update stage (Success stage_result) (stages results1)\<rparr>
           in run_stages validate_stages run val rest stage_result results2
                (calls @ [(stage, current_input)]))
      | Inl e \<Rightarrow>
          (let results1 = results\<lparr>stages := AList.update stage (Failed e) (stages results),
                                  errors := errors results @ [(stage, e)]\<rparr>
           in if is_critical_stage stage then (results1, calls @ [(stage, current_input)])
              else run_stages validate_stages run val rest current_input results1
                     (calls @ [(stage, current_input)])))"

datatype run_result =
    DryRun string "string list"
  | Ran pipeline_results "(string \<times> string) list"

text \<open>\<^verbatim>\<open>run_single\<close>.  An unknown or inverted stage pair raises ValueError.\<close>

definition run_single :: "bool \<Rightarrow> bool \<Rightarrow> runner \<Rightarrow> validator \<Rightarrow> string \<Rightarrow> string \<Rightarrow> string
    \<Rightarrow> py_error + run_result" where
  "run_single dry_run validate_stages run val input_path start_stage end_stage =
     (case get_stage_sequence start_stage end_stage of
        Inl e \<Rightarrow> Inl e
      | Inr stage_list \<Rightarrow>
          if dry_run then Inr (DryRun input_path stage_list)
          else (case run_stages validate_stages run val stage_list input_path
                       \<lparr>input = input_path, stages = [], errors = [], warnings = [], status = ''''\<rparr> []
                of (results, calls) \<Rightarrow>
                  Inr (Ran (results\<lparr>status :=
                              (if errors results = [] then ''completed''
                               else if length (errors results) < length stage_list then ''partial''
                               else ''failed'')\<rparr>)
                           calls)))"

subsection \<open>Notions used to state the properties of the orchestrator\<close>

text \<open>The input that the loop passes on after a call: the output of a stage that succeeded,
  the unchanged input after one that failed.\<close>

definition next_input :: "runner \<Rightarrow> string \<times> string \<Rightarrow> string" where
  "next_input run call =
     (case run (fst call) (snd call) of Inr out \<Rightarrow> out | Inl e \<Rightarrow> snd call)"

definition critical_failure :: "runner \<Rightarrow> string \<times> string \<Rightarrow> bool" where
  "critical_failure run call = (is_critical_stage (fst call) \<and> isl (run (fst call) (snd call)))"

subsection \<open>Sample runners\<close>

definition summarize_fails :: runner where
  "summarize_fails stage inp = (if stage = ''summarize'' then Inl ''boom'' else Inr (stage @ ''.jsonl''))"

definition finalize_fails :: runner where
  "finalize_fails stage inp = (if stage = ''finalize'' then Inl ''boom'' else Inr (stage @ ''.jsonl''))"

definition accepts_all :: validator where
  "accepts_all stage path = ValidatorResult (Some True) (Some 0)"

section \<open>Notions used to state the properties of the dataset store\<close>

text \<open>
  A line that \<^verbatim>\<open>load\<close> reads back as it was written: it is not empty, does not begin or
  end with whitespace, and contains neither a line boundary nor the end marker.  The
  output of \<^verbatim>\<open>json.dumps\<close> for a dictionary begins and ends with a brace; it is such a
  line unless a string inside it contains the end marker or the character \<open>0x85\<close> (or a
  line separator beyond code point 255), which \<^verbatim>\<open>ensure_ascii=False\<close> writes unescaped.
\<close>

definition clean_line :: "string \<Rightarrow> bool" where
  "clean_line l =
     (l \<noteq> [] \<and> \<not> is_space (hd l) \<and> \<not> is_space (last l) \<and>
      list_all (\<lambda>c. \<not> is_linebreak c) l \<and> \<not> contains DATASET_END l)"

text \<open>The JSON library reads back what it wrote for the dictionary \<open>d\<close>, on a clean line.\<close>

definition round_trips :: "(jdict \<Rightarrow> string) \<Rightarrow> (string \<Rightarrow> jval option) \<Rightarrow> jdict \<Rightarrow> bool" where
  "round_trips dumps loads d = (loads (dumps d) = Some (JObj d) \<and> clean_line (dumps d))"

text \<open>A card whose \<open>segment_id\<close> is absent or a string other than the reserved ones.\<close>

definition plain_id :: "jdict \<Rightarrow> bool" where
  "plain_id c =
     (case map_of c ''segment_id'' of
        None \<Rightarrow> True
      | Some (JStr s) \<Rightarrow> s \<noteq> HEADER_ID \<and> s \<noteq> AUDIT_ID \<and> s \<noteq> FOOTER_ID
      | Some _ \<Rightarrow> False)"

definition id_key :: "jdict \<Rightarrow> string" where
  "id_key c = (case sort_id c of Some s \<Rightarrow> s | None \<Rightarrow> '''')"

text \<open>Lines joined by line feeds.\<close>

fun join_lines :: "string list \<Rightarrow> string" where
  "join_lines [] = []"
| "join_lines [l] = l"
| "join_lines (l # ls) = l @ [line_feed] @ join_lines ls"

subsection \<open>A sample JSON library and a sample file\<close>

text \<open>
  A printer in the format of \<^verbatim>\<open>json.dumps\<close> for values without floats and control
  characters other than the line feed, and a reader that knows the lines of the samples.
\<close>

fun json_str :: "string \<Rightarrow> string" where
  "json_str [] = []"
| "json_str (c # s) =
     (if c = CHR 0x22 then [CHR 0x5C, CHR 0x22]
      else if c = CHR 0x5C then [CHR 0x5C, CHR 0x5C]
      else if c = line_feed then [CHR 0x5C, CHR ''n'']
      else [c]) @ json_str s"

definition json_quoted :: "string \<Rightarrow> string" where
  "json_quoted s = [CHR 0x22] @ json_str s @ [CHR 0x22]"

fun join_comma :: "string list \<Rightarrow> string" where
  "join_comma [] = []"
| "join_comma [x] = x"
| "join_comma (x # xs) = x @ '', '' @ join_comma xs"

fun sample_dumps_val :: "jval \<Rightarrow> string" where
  "sample_dumps_val JNull = ''null''"
| "sample_dumps_val (JBool b) = (if b then ''true'' else ''false'')"
| "sample_dumps_val (JInt i) = (if i < 0 then ''-'' @ str_of_nat (nat (- i)) else str_of_nat (nat i))"
| "sample_dumps_val (JNum q) = ''0.0''"
| "sample_dumps_val (JStr s) = json_quoted s"
| "sample_dumps_val (JArr xs) = ''['' @ join_comma (map sample_dumps_val xs) @ '']''"
| "sample_dumps_val (JObj d) =
     ''{'' @ join_comma (map (\<lambda>kv. json_quoted (fst kv) @ '': '' @ sample_dumps_val (snd kv)) d) @ ''}''"

definition sample_dumps :: "jdict \<Rightarrow> string" where
  "sample_dumps d = sample_dumps_val (JObj d)"

text \<open>
  The identity stands for the SHA-256 digest in the samples: like the digest, it gives
  different values for different bodies.
\<close>

definition sample_checksum :: "string \<Rightarrow> string" where
  "sample_checksum s = s"

definition sample_clock :: clock where
  "sample_clock = \<lparr>now_header = ''2024-01-01T00:00:00Z'', now_audit = ''2024-01-01T00:00:01Z'',
                   now_footer = ''2024-01-01T00:00:02Z''\<rparr>"

definition sample_header :: jdict where
  "sample_header = [(''book'', JStr ''test_book''), (''title'', JStr ''Test Book'')]"

definition sample_card1 :: jdict where
  "sample_card1 = [(''segment_id'', JStr ''00001''), (''segment'', JStr ''First segment''),
                   (''page_num'', JInt 1)]"

definition sample_card2 :: jdict where
  "sample_card2 = [(''segment_id'', JStr ''00002''), (''segment'', JStr ''Second segment''),
                   (''page_num'', JInt 2)]"

definition tampered_card1 :: jdict where
  "tampered_card1 = [(''segment_id'', JStr ''00001''), (''segment'', JStr ''Forst segment''),
                     (''page_num'', JInt 1)]"

definition sample_audit :: jdict where
  "sample_audit = [(''total_cards'', JInt 2), (''stage'', JStr ''test'')]"

definition sample_lines :: "string list" where
  "sample_lines = body_lines sample_dumps sample_clock sample_header [sample_card2, sample_card1]
                    (Some sample_audit)"

definition sample_footer :: jdict where
  "sample_footer = saved_footer sample_checksum sample_clock sample_lines 2 None"

definition sample_objects :: "jdict list" where
  "sample_objects =
     [saved_header sample_clock sample_header, sample_card1, sample_card2, tampered_card1,
      saved_audit sample_clock sample_audit, sample_footer]"

definition sample_loads :: "string \<Rightarrow> jval option" where
  "sample_loads s = map_of (map (\<lambda>d. (sample_dumps d, JObj d)) sample_objects) s"

definition sample_file :: string where
  "sample_file =
     DATASET_BEGIN @ [line_feed] @
     concat (map (\<lambda>line. line @ [line_feed]) sample_lines) @
     sample_dumps sample_footer @ [line_feed] @ DATASET_END @ [line_feed]"

text \<open>The sample file with one character of the first card line changed.\<close>

definition tampered_file :: string where
  "tampered_file =
     DATASET_BEGIN @ [line_feed] @
     concat (map (\<lambda>line. line @ [line_feed])
       [sample_dumps (saved_header sample_clock sample_header), sample_dumps sample_card2,
        sample_dumps tampered_card1, sample_dumps (saved_audit sample_clock sample_audit)]) @
     sample_dumps sample_footer @ [line_feed] @ DATASET_END @ [line_feed]"

section \<open>Properties of the extractor chain\<close>

lemma get_delay_mono: "get_delay a \<le> get_delay (Suc a)"
  by (simp add: get_delay_def INITIAL_DELAY_def BACKOFF_FACTOR_def MAX_DELAY_def min_def)

lemma get_delay_cap: "get_delay a \<le> MAX_DELAY"
  by (simp add: get_delay_def)

lemma retry_loop_raised:
  "beh name = Raised \<Longrightarrow> retry_loop nrm beh name 0 MAX_RETRIES tr =
     (None, tr @ [Attempt name 0, Sleep (get_delay 0), Attempt name 1, Sleep (get_delay 1), Attempt name 2])"
  by (simp add: MAX_RETRIES_def numeral_3_eq_3)

lemma retry_loop_returned:
  "beh name = Returned text0 c \<Longrightarrow> retry_loop nrm beh name 0 MAX_RETRIES tr =
     (if accepts nrm (beh name) then Some (if text0 \<noteq> [] then nrm text0 else text0, c) else None,
      tr @ [Attempt name 0])"
  by (simp add: MAX_RETRIES_def numeral_3_eq_3 accepts_def Let_def)

lemma retry_loop_accepts:
  "(fst (retry_loop nrm beh name 0 MAX_RETRIES tr) \<noteq> None) = accepts nrm (beh name)"
  by (cases "beh name") (simp_all add: retry_loop_raised retry_loop_returned accepts_def)

lemma retry_loop_trace:
  "\<exists>evs. snd (retry_loop nrm beh name 0 MAX_RETRIES tr) = tr @ evs \<and>
     (name \<noteq> Ocr \<longrightarrow> \<not> ocr_invoked evs) \<and> (name = Ocr \<longrightarrow> ocr_invoked evs)"
  by (cases "beh name") (simp_all add: retry_loop_raised retry_loop_returned ocr_invoked_def)

lemma ocr_invoked_append [simp]: "ocr_invoked (xs @ ys) = (ocr_invoked xs \<or> ocr_invoked ys)"
  by (simp add: ocr_invoked_def list_ex_iff) blast

lemma preview_fst: "fst (try_non_ocr_preview beh xs tr) = fst (try_non_ocr_preview beh xs [])"
proof (induction xs arbitrary: tr)
  case Nil show ?case by simp
next
  case (Cons n xs)
  show ?case
  proof (cases "n = Ocr")
    case True then show ?thesis using Cons.IH [of tr] by simp
  next
    case False
    show ?thesis
    proof (cases "beh n")
      case Raised
      then show ?thesis using False Cons.IH [of "tr @ [Preview n]"] Cons.IH [of "[Preview n]"] by simp
    next
      case (Returned t c) then show ?thesis using False by simp
    qed
  qed
qed

lemma preview_trace: "\<exists>evs. snd (try_non_ocr_preview beh xs tr) = tr @ evs \<and> \<not> ocr_invoked evs"
proof (induction xs arbitrary: tr)
  case Nil show ?case by (simp add: ocr_invoked_def)
next
  case (Cons n xs)
  show ?case
  proof (cases "n = Ocr")
    case True then show ?thesis using Cons.IH [of tr] by simp
  next
    case False
    show ?thesis
    proof (cases "beh n")
      case Raised
      obtain evs where "snd (try_non_ocr_preview beh xs (tr @ [Preview n])) = (tr @ [Preview n]) @ evs"
        "\<not> ocr_invoked evs" using Cons.IH [of "tr @ [Preview n]"] by blast
      then show ?thesis using False Raised
        by (intro exI [of _ "Preview n # evs"]) (simp add: ocr_invoked_def)
    next
      case (Returned t c) then show ?thesis using False
        by (intro exI [of _ "[Preview n]"]) (simp add: ocr_invoked_def)
    qed
  qed
qed

lemma extract_loop_step_plain:
  "name \<noteq> Ocr \<Longrightarrow>
   extract_loop cfg nrm beh page extractors (name # rest) tr =
     (case retry_loop nrm beh name 0 MAX_RETRIES tr of
        (Some (text, confidence), tr2) \<Rightarrow> ((text, method_of_name name, confidence), tr2)
      | (None, tr2) \<Rightarrow> extract_loop cfg nrm beh page extractors rest tr2)"
  by simp

lemma extract_loop_step_ocr_needed:
  "needs_ocr cfg (fst (try_non_ocr_preview beh extractors tr)) page \<Longrightarrow>
   extract_loop cfg nrm beh page extractors (Ocr # rest) tr =
     (case retry_loop nrm beh Ocr 0 MAX_RETRIES (snd (try_non_ocr_preview beh extractors tr)) of
        (Some (text, confidence), tr2) \<Rightarrow> ((text, OCR, confidence), tr2)
      | (None, tr2) \<Rightarrow> extract_loop cfg nrm beh page extractors rest tr2)"
  by (simp add: case_prod_beta split: option.split)

lemma extract_loop_step:
  "\<not> (name = Ocr \<and> \<not> needs_ocr cfg (fst (try_non_ocr_preview beh extractors tr)) page) \<Longrightarrow>
   extract_loop cfg nrm beh page extractors (name # rest) tr =
     (case retry_loop nrm beh name 0 MAX_RETRIES
             (if name = Ocr then snd (try_non_ocr_preview beh extractors tr) else tr) of
        (Some (text, confidence), tr2) \<Rightarrow> ((text, method_of_name name, confidence), tr2)
      | (None, tr2) \<Rightarrow> extract_loop cfg nrm beh page extractors rest tr2)"
  by (auto simp add: case_prod_beta split: option.split)

lemma extract_loop_step_ocr_skipped:
  "\<not> needs_ocr cfg (fst (try_non_ocr_preview beh extractors tr)) page \<Longrightarrow>
   extract_loop cfg nrm beh page extractors (Ocr # rest) tr =
     (if fst (try_non_ocr_preview beh extractors tr) \<noteq> []
      then ((fst (try_non_ocr_preview beh extractors tr), PDFPLUMBER, None),
            snd (try_non_ocr_preview beh extractors tr))
      else (('''', NONE, None), snd (try_non_ocr_preview beh extractors tr)))"
  by (simp add: case_prod_beta)

lemma extract_loop_trace:
  "\<exists>evs. snd (extract_loop cfg nrm beh page extractors rem tr) = tr @ evs"
proof (induction rem arbitrary: tr)
  case Nil show ?case by simp
next
  case (Cons n rest)
  show ?case
  proof (cases "n = Ocr")
    case False
    obtain r tr2 where r: "retry_loop nrm beh n 0 MAX_RETRIES tr = (r, tr2)" by fastforce
    obtain e1 where e1: "tr2 = tr @ e1" using retry_loop_trace [of nrm beh n tr] r by auto
    show ?thesis
    proof (cases r)
      case None
      then show ?thesis using False r e1 Cons.IH [of tr2] by auto
    next
      case (Some tc)
      then show ?thesis using False r e1 by (cases tc) auto
    qed
  next
    case True
    obtain e0 where e0: "snd (try_non_ocr_preview beh extractors tr) = tr @ e0"
      using preview_trace [of beh extractors tr] by blast
    show ?thesis
    proof (cases "needs_ocr cfg (fst (try_non_ocr_preview beh extractors tr)) page")
      case False
      then show ?thesis using True e0 by (simp add: extract_loop_step_ocr_skipped del: extract_loop.simps)
    next
      case needed: True
      obtain r tr2 where r: "retry_loop nrm beh Ocr 0 MAX_RETRIES (tr @ e0) = (r, tr2)" by fastforce
      obtain e1 where e1: "tr2 = (tr @ e0) @ e1" using retry_loop_trace [of nrm beh Ocr "tr @ e0"] r by auto
      show ?thesis
      proof (cases r)
        case None
        then show ?thesis using True needed r e0 e1 Cons.IH [of tr2]
          by (auto simp add: extract_loop_step_ocr_needed simp del: extract_loop.simps)
      next
        case (Some tc)
        then show ?thesis using True needed r e0 e1
          by (cases tc) (auto simp add: extract_loop_step_ocr_needed simp del: extract_loop.simps)
      qed
    qed
  qed
qed

text \<open>OCR is invoked exactly when the walk reaches it and the preview needs it.\<close>

lemma extract_loop_ocr_invoked:
  "\<not> ocr_invoked tr \<Longrightarrow>
   ocr_invoked (snd (extract_loop cfg nrm beh page extractors rem tr)) =
     (Ocr \<in> set rem \<and> (\<forall>n \<in> set (takeWhile (\<lambda>n. n \<noteq> Ocr) rem). \<not> accepts nrm (beh n)) \<and>
      needs_ocr cfg (preview_text beh extractors) page)"
proof (induction rem arbitrary: tr)
  case Nil then show ?case by simp
next
  case (Cons n rest)
  show ?case
  proof (cases "n = Ocr")
    case False
    obtain r tr2 where r: "retry_loop nrm beh n 0 MAX_RETRIES tr = (r, tr2)" by fastforce
    obtain e1 where e1: "tr2 = tr @ e1" "\<not> ocr_invoked e1"
      using retry_loop_trace [of nrm beh n tr] r False by auto
    have acc: "(r \<noteq> None) = accepts nrm (beh n)" using retry_loop_accepts [of nrm beh n tr] r by simp
    show ?thesis
    proof (cases r)
      case None
      then have "\<not> accepts nrm (beh n)" using acc by simp
      moreover have "\<not> ocr_invoked tr2" using e1 Cons.prems by simp
      ultimately show ?thesis using False r None Cons.IH [of tr2] by simp
    next
      case (Some tc)
      then have "accepts nrm (beh n)" using acc by simp
      then show ?thesis using False r Some e1 Cons.prems by (cases tc) simp
    qed
  next
    case True
    let ?pv = "fst (try_non_ocr_preview beh extractors tr)"
    have pv: "?pv = preview_text beh extractors" unfolding preview_text_def by (rule preview_fst)
    obtain e0 where e0: "snd (try_non_ocr_preview beh extractors tr) = tr @ e0" "\<not> ocr_invoked e0"
      using preview_trace [of beh extractors tr] by blast
    show ?thesis
    proof (cases "needs_ocr cfg ?pv page")
      case False
      then show ?thesis using True e0 pv Cons.prems
        by (simp add: extract_loop_step_ocr_skipped del: extract_loop.simps)
    next
      case needed: True
      obtain r tr2 where r: "retry_loop nrm beh Ocr 0 MAX_RETRIES (tr @ e0) = (r, tr2)" by fastforce
      obtain e1 where e1: "tr2 = (tr @ e0) @ e1" "ocr_invoked e1"
        using retry_loop_trace [of nrm beh Ocr "tr @ e0"] r by auto
      have inv2: "ocr_invoked tr2" using e1 by simp
      show ?thesis
      proof (cases r)
        case None
        obtain e2 where "snd (extract_loop cfg nrm beh page extractors rest tr2) = tr2 @ e2"
          using extract_loop_trace by blast
        then show ?thesis using True needed r e0 None inv2 pv
          by (simp add: extract_loop_step_ocr_needed del: extract_loop.simps)
      next
        case (Some tc)
        then show ?thesis using True needed r e0 inv2 pv
          by (cases tc) (simp add: extract_loop_step_ocr_needed del: extract_loop.simps)
      qed
    qed
  qed
qed

lemma extract_loop_none_empty:
  "fst (snd (fst (extract_loop cfg nrm beh page extractors rem tr))) = NONE \<Longrightarrow>
   fst (fst (extract_loop cfg nrm beh page extractors rem tr)) = []"
proof (induction rem arbitrary: tr)
  case Nil show ?case by simp
next
  case (Cons n rest)
  let ?tr1 = "if n = Ocr then snd (try_non_ocr_preview beh extractors tr) else tr"
  show ?case
  proof (cases "n = Ocr \<and> \<not> needs_ocr cfg (fst (try_non_ocr_preview beh extractors tr)) page")
    case True
    then show ?thesis using Cons.prems
      by (simp add: extract_loop_step_ocr_skipped del: extract_loop.simps split: if_splits)
  next
    case False
    have step: "extract_loop cfg nrm beh page extractors (n # rest) tr =
      (case retry_loop nrm beh n 0 MAX_RETRIES ?tr1 of
        (Some (text, confidence), tr2) \<Rightarrow> ((text, method_of_name n, confidence), tr2)
      | (None, tr2) \<Rightarrow> extract_loop cfg nrm beh page extractors rest tr2)"
      using False by (intro extract_loop_step) simp
    obtain r tr2 where r: "retry_loop nrm beh n 0 MAX_RETRIES ?tr1 = (r, tr2)" by fastforce
    show ?thesis
    proof (cases r)
      case None
      then show ?thesis using step r Cons.prems Cons.IH [of tr2] by simp
    next
      case (Some tc)
      then show ?thesis using step r Cons.prems by (cases tc; cases n) simp_all
    qed
  qed
qed

lemma extract_loop_exhausted:
  "\<forall>n \<in> set rem. \<not> accepts nrm (beh n) \<Longrightarrow>
   Ocr \<in> set rem \<longrightarrow> needs_ocr cfg (preview_text beh extractors) page \<or> preview_text beh extractors = [] \<Longrightarrow>
   fst (extract_loop cfg nrm beh page extractors rem tr) = ('''', NONE, None)"
proof (induction rem arbitrary: tr)
  case Nil show ?case by simp
next
  case (Cons n rest)
  let ?tr1 = "if n = Ocr then snd (try_non_ocr_preview beh extractors tr) else tr"
  have pv: "fst (try_non_ocr_preview beh extractors tr) = preview_text beh extractors"
    unfolding preview_text_def by (rule preview_fst)
  show ?case
  proof (cases "n = Ocr \<and> \<not> needs_ocr cfg (preview_text beh extractors) page")
    case True
    then show ?thesis using Cons.prems pv
      by (simp add: extract_loop_step_ocr_skipped del: extract_loop.simps)
  next
    case False
    have step: "extract_loop cfg nrm beh page extractors (n # rest) tr =
      (case retry_loop nrm beh n 0 MAX_RETRIES ?tr1 of
        (Some (text, confidence), tr2) \<Rightarrow> ((text, method_of_name n, confidence), tr2)
      | (None, tr2) \<Rightarrow> extract_loop cfg nrm beh page extractors rest tr2)"
      using False pv by (intro extract_loop_step) simp
    obtain r tr2 where r: "retry_loop nrm beh n 0 MAX_RETRIES ?tr1 = (r, tr2)" by fastforce
    have "\<not> accepts nrm (beh n)" using Cons.prems by simp
    then have "r = None" using retry_loop_accepts [of nrm beh n ?tr1] r by (cases r) simp_all
    moreover have "Ocr \<in> set rest \<longrightarrow> needs_ocr cfg (preview_text beh extractors) page \<or> preview_text beh extractors = []"
      using Cons.prems by simp
    ultimately show ?thesis using step r Cons.prems Cons.IH [of tr2] by simp
  qed
qed

lemma map_of_update_other: "k \<noteq> k' \<Longrightarrow> map_of (AList.update k' v al) k = map_of al k"
  by (simp add: update_conv')

lemma process_page_fields:
  assumes "fst (extract_text cfg nrm beh extractors page_num) = (text, method, conf)"
  shows "map_of (fst (process_page cfg nrm beh extractors tables pdf_name page_num)) ''segment'' = Some (JStr text)"
    and "map_of (fst (process_page cfg nrm beh extractors tables pdf_name page_num)) ''extraction_method'' = Some (JStr (method_value method))"
    and "map_of (fst (process_page cfg nrm beh extractors tables pdf_name page_num)) ''error'' = None"
  using assms by (simp_all add: process_page_def Let_def update_conv' split: option.split)

lemma method_value_none: "(method_value m = ''none'') = (m = NONE)"
  by (cases m) simp_all

subsection \<open>Retry bound and the calls of the preview\<close>

lemma attempt_count_append [simp]: "attempt_count n (xs @ ys) = attempt_count n xs + attempt_count n ys"
  by (simp add: attempt_count_def)

lemma preview_count_append [simp]: "preview_count n (xs @ ys) = preview_count n xs + preview_count n ys"
  by (simp add: preview_count_def)

lemma attempt_count_simps [simp]:
  "attempt_count n [] = 0"
  "attempt_count n (Attempt m k # tr) = (if m = n then Suc (attempt_count n tr) else attempt_count n tr)"
  "attempt_count n (Preview m # tr) = attempt_count n tr"
  "attempt_count n (Sleep d # tr) = attempt_count n tr"
  by (simp_all add: attempt_count_def)

lemma preview_count_simps [simp]:
  "preview_count n [] = 0"
  "preview_count n (Attempt m k # tr) = preview_count n tr"
  "preview_count n (Preview m # tr) = (if m = n then Suc (preview_count n tr) else preview_count n tr)"
  "preview_count n (Sleep d # tr) = preview_count n tr"
  by (simp_all add: preview_count_def)

lemma retry_loop_attempts:
  "attempt_count name (snd (retry_loop nrm beh n 0 MAX_RETRIES tr)) =
     attempt_count name tr + (if n = name then (if beh n = Raised then MAX_RETRIES else 1) else 0)"
proof (cases "beh n")
  case Raised
  have h: "snd (retry_loop nrm beh n 0 MAX_RETRIES tr) =
     tr @ [Attempt n 0, Sleep (get_delay 0), Attempt n 1, Sleep (get_delay 1), Attempt n 2]"
    using Raised by (simp add: retry_loop_raised)
  show ?thesis unfolding h using Raised by (auto simp add: MAX_RETRIES_def)
next
  case (Returned t c)
  have h: "snd (retry_loop nrm beh n 0 MAX_RETRIES tr) = tr @ [Attempt n 0]"
    using Returned by (simp add: retry_loop_returned)
  show ?thesis unfolding h using Returned by auto
qed

lemma retry_loop_previews:
  "preview_count name (snd (retry_loop nrm beh n 0 MAX_RETRIES tr)) = preview_count name tr"
proof (cases "beh n")
  case Raised
  have h: "snd (retry_loop nrm beh n 0 MAX_RETRIES tr) =
     tr @ [Attempt n 0, Sleep (get_delay 0), Attempt n 1, Sleep (get_delay 1), Attempt n 2]"
    using Raised by (simp add: retry_loop_raised)
  show ?thesis unfolding h by simp
next
  case (Returned t c)
  have h: "snd (retry_loop nrm beh n 0 MAX_RETRIES tr) = tr @ [Attempt n 0]"
    using Returned by (simp add: retry_loop_returned)
  show ?thesis unfolding h by simp
qed



lemma preview_attempts:
  "attempt_count name (snd (try_non_ocr_preview beh xs tr)) = attempt_count name tr"
proof (induction xs arbitrary: tr)
  case Nil show ?case by simp
next
  case (Cons n xs)
  show ?case using Cons.IH [of tr] Cons.IH [of "tr @ [Preview n]"]
    by (cases "beh n") simp_all
qed



lemma preview_previews_absent:
  "name \<notin> set xs \<Longrightarrow> preview_count name (snd (try_non_ocr_preview beh xs tr)) = preview_count name tr"
proof (induction xs arbitrary: tr)
  case Nil show ?case by simp
next
  case (Cons n xs)
  then show ?case using Cons.IH [of tr] Cons.IH [of "tr @ [Preview n]"]
    by (cases "beh n") auto
qed



lemma preview_previews:
  "distinct xs \<Longrightarrow>
   preview_count name (snd (try_non_ocr_preview beh xs tr)) =
     preview_count name tr +
       (if name \<noteq> Ocr \<and> name \<in> set xs \<and>
           list_all (\<lambda>n. n = Ocr \<or> beh n = Raised) (takeWhile (\<lambda>n. n \<noteq> name) xs)
        then 1 else 0)"
proof (induction xs arbitrary: tr)
  case Nil show ?case by simp
next
  case (Cons n xs)
  have d: "distinct xs" "n \<notin> set xs" using Cons.prems by simp_all
  show ?case
  proof (cases "n = name")
    case True
    then show ?thesis using d preview_previews_absent [of name xs beh]
      by (cases "beh n") auto
  next
    case False
    then show ?thesis using Cons.IH [OF d(1), of tr] Cons.IH [OF d(1), of "tr @ [Preview n]"]
      by (cases "beh n") auto
  qed
qed

lemma retry_loop_cases:
  obtains (accepted) t c tr2 where "retry_loop nrm beh n 0 MAX_RETRIES tr = (Some (t, c), tr2)"
      "accepts nrm (beh n)"
  | (rejected) tr2 where "retry_loop nrm beh n 0 MAX_RETRIES tr = (None, tr2)"
      "\<not> accepts nrm (beh n)"
proof (cases "retry_loop nrm beh n 0 MAX_RETRIES tr")
  case (Pair r tr2)
  show ?thesis
  proof (cases r)
    case None
    then show ?thesis
      using Pair retry_loop_accepts [of nrm beh n tr] rejected by simp
  next
    case (Some tc)
    then show ?thesis
      using Pair retry_loop_accepts [of nrm beh n tr] accepted [of "fst tc" "snd tc" tr2] by simp
  qed
qed

lemma extract_loop_attempts:
  "distinct todo \<Longrightarrow>
   attempt_count name (snd (extract_loop cfg nrm beh page chain todo tr)) =
     attempt_count name tr +
       (if name \<in> set todo \<and>
           list_all (\<lambda>n. \<not> accepts nrm (beh n)) (takeWhile (\<lambda>n. n \<noteq> name) todo) \<and>
           (name = Ocr \<or> Ocr \<in> set (takeWhile (\<lambda>n. n \<noteq> name) todo)
              \<longrightarrow> needs_ocr cfg (preview_text beh chain) page)
        then (if beh name = Raised then MAX_RETRIES else 1) else 0)"
proof (induction todo arbitrary: tr)
  case Nil show ?case by simp
next
  case (Cons x rest)
  let ?P = "needs_ocr cfg (preview_text beh chain) page"
  let ?k = "if beh name = Raised then MAX_RETRIES else 1"
  let ?cond = "\<lambda>todo. name \<in> set todo \<and>
           list_all (\<lambda>n. \<not> accepts nrm (beh n)) (takeWhile (\<lambda>n. n \<noteq> name) todo) \<and>
           (name = Ocr \<or> Ocr \<in> set (takeWhile (\<lambda>n. n \<noteq> name) todo) \<longrightarrow> ?P)"
  have d: "distinct rest" "x \<notin> set rest" using Cons.prems by simp_all
  have pv: "fst (try_non_ocr_preview beh chain tr) = preview_text beh chain"
    unfolding preview_text_def by (rule preview_fst)
  show ?case
  proof (cases "x = Ocr \<and> \<not> ?P")
    case True
    have tr: "snd (extract_loop cfg nrm beh page chain (x # rest) tr) =
        snd (try_non_ocr_preview beh chain tr)"
      using True pv by (simp add: extract_loop_step_ocr_skipped del: extract_loop.simps)
    have c: "\<not> ?cond (x # rest)" using True by auto
    show ?thesis unfolding tr preview_attempts if_not_P [OF c] by simp
  next
    case False
    let ?tr1 = "if x = Ocr then snd (try_non_ocr_preview beh chain tr) else tr"
    have a1: "attempt_count name ?tr1 = attempt_count name tr" by (simp add: preview_attempts)
    have step: "extract_loop cfg nrm beh page chain (x # rest) tr =
        (case retry_loop nrm beh x 0 MAX_RETRIES ?tr1 of
           (Some (text, confidence), tr2) \<Rightarrow> ((text, method_of_name x, confidence), tr2)
         | (None, tr2) \<Rightarrow> extract_loop cfg nrm beh page chain rest tr2)"
      using False pv by (intro extract_loop_step) simp
    have a2: "attempt_count name (snd (retry_loop nrm beh x 0 MAX_RETRIES ?tr1)) =
        attempt_count name tr + (if x = name then (if beh x = Raised then MAX_RETRIES else 1) else 0)"
      unfolding retry_loop_attempts a1 ..
    show ?thesis
    proof (cases rule: retry_loop_cases [of nrm beh x ?tr1])
      case (accepted t c tr2)
      have tr: "snd (extract_loop cfg nrm beh page chain (x # rest) tr) = tr2"
        unfolding step accepted(1) by simp
      have a3: "attempt_count name tr2 =
          attempt_count name tr + (if x = name then (if beh x = Raised then MAX_RETRIES else 1) else 0)"
        using a2 unfolding accepted(1) by simp
      have c: "?cond (x # rest) = (x = name)" using accepted(2) False by auto
      show ?thesis unfolding tr a3 c by simp
    next
      case (rejected tr2)
      have tr: "snd (extract_loop cfg nrm beh page chain (x # rest) tr) =
          snd (extract_loop cfg nrm beh page chain rest tr2)"
        unfolding step rejected(1) by simp
      have a3: "attempt_count name tr2 =
          attempt_count name tr + (if x = name then (if beh x = Raised then MAX_RETRIES else 1) else 0)"
        using a2 unfolding rejected(1) by simp
      note ih = Cons.IH [OF d(1), of tr2]
      show ?thesis
      proof (cases "x = name")
        case True
        have c1: "\<not> ?cond rest" using True d(2) by simp
        have c2: "?cond (x # rest)" using True False by auto
        show ?thesis unfolding tr ih a3 if_not_P [OF c1] if_P [OF c2] using True by simp
      next
        case neq: False
        have c: "?cond (x # rest) = ?cond rest" using neq rejected(2) False by auto
        show ?thesis unfolding tr ih a3 c using neq by simp
      qed
    qed
  qed
qed

lemma extract_loop_previews:
  "distinct chain \<Longrightarrow> distinct todo \<Longrightarrow>
   preview_count name (snd (extract_loop cfg nrm beh page chain todo tr)) =
     preview_count name tr +
       (if Ocr \<in> set todo \<and>
           list_all (\<lambda>n. \<not> accepts nrm (beh n)) (takeWhile (\<lambda>n. n \<noteq> Ocr) todo) \<and>
           name \<noteq> Ocr \<and> name \<in> set chain \<and>
           list_all (\<lambda>n. n = Ocr \<or> beh n = Raised) (takeWhile (\<lambda>n. n \<noteq> name) chain)
        then 1 else 0)"
proof (induction todo arbitrary: tr)
  case Nil show ?case by simp
next
  case (Cons x rest)
  let ?P = "needs_ocr cfg (preview_text beh chain) page"
  let ?pv = "name \<noteq> Ocr \<and> name \<in> set chain \<and>
           list_all (\<lambda>n. n = Ocr \<or> beh n = Raised) (takeWhile (\<lambda>n. n \<noteq> name) chain)"
  let ?cond = "\<lambda>todo. Ocr \<in> set todo \<and>
           list_all (\<lambda>n. \<not> accepts nrm (beh n)) (takeWhile (\<lambda>n. n \<noteq> Ocr) todo) \<and>
           name \<noteq> Ocr \<and> name \<in> set chain \<and>
           list_all (\<lambda>n. n = Ocr \<or> beh n = Raised) (takeWhile (\<lambda>n. n \<noteq> name) chain)"
  have d: "distinct rest" "x \<notin> set rest" using Cons.prems by simp_all
  have pv: "fst (try_non_ocr_preview beh chain tr) = preview_text beh chain"
    unfolding preview_text_def by (rule preview_fst)
  have p0: "preview_count name (snd (try_non_ocr_preview beh chain tr)) =
      preview_count name tr + (if ?pv then 1 else 0)"
    using preview_previews [OF Cons.prems(1), of name beh tr] by simp
  show ?case
  proof (cases "x = Ocr \<and> \<not> ?P")
    case True
    have tr: "snd (extract_loop cfg nrm beh page chain (x # rest) tr) =
        snd (try_non_ocr_preview beh chain tr)"
      using True pv by (simp add: extract_loop_step_ocr_skipped del: extract_loop.simps)
    have c: "?cond (x # rest) = ?pv" using True by simp
    show ?thesis unfolding tr p0 c ..
  next
    case False
    let ?tr1 = "if x = Ocr then snd (try_non_ocr_preview beh chain tr) else tr"
    have a1: "preview_count name ?tr1 = preview_count name tr + (if x = Ocr \<and> ?pv then 1 else 0)"
      using p0 by simp
    have step: "extract_loop cfg nrm beh page chain (x # rest) tr =
        (case retry_loop nrm beh x 0 MAX_RETRIES ?tr1 of
           (Some (text, confidence), tr2) \<Rightarrow> ((text, method_of_name x, confidence), tr2)
         | (None, tr2) \<Rightarrow> extract_loop cfg nrm beh page chain rest tr2)"
      using False pv by (intro extract_loop_step) simp
    have a2: "preview_count name (snd (retry_loop nrm beh x 0 MAX_RETRIES ?tr1)) =
        preview_count name tr + (if x = Ocr \<and> ?pv then 1 else 0)"
      unfolding retry_loop_previews a1 ..
    show ?thesis
    proof (cases rule: retry_loop_cases [of nrm beh x ?tr1])
      case (accepted t c tr2)
      have tr: "snd (extract_loop cfg nrm beh page chain (x # rest) tr) = tr2"
        unfolding step accepted(1) by simp
      have a3: "preview_count name tr2 = preview_count name tr + (if x = Ocr \<and> ?pv then 1 else 0)"
        using a2 unfolding accepted(1) by simp
      have c: "?cond (x # rest) = (x = Ocr \<and> ?pv)" using accepted(2) by auto
      show ?thesis unfolding tr a3 c ..
    next
      case (rejected tr2)
      have tr: "snd (extract_loop cfg nrm beh page chain (x # rest) tr) =
          snd (extract_loop cfg nrm beh page chain rest tr2)"
        unfolding step rejected(1) by simp
      have a3: "preview_count name tr2 = preview_count name tr + (if x = Ocr \<and> ?pv then 1 else 0)"
        using a2 unfolding rejected(1) by simp
      note ih = Cons.IH [OF Cons.prems(1) d(1), of tr2]
      show ?thesis
      proof (cases "x = Ocr")
        case True
        have c1: "\<not> ?cond rest" using True d(2) by simp
        have c2: "?cond (x # rest) = (x = Ocr \<and> ?pv)" using True by simp
        show ?thesis unfolding tr ih a3 if_not_P [OF c1] c2 by simp
      next
        case neq: False
        have c: "?cond (x # rest) = ?cond rest" using neq rejected(2) by auto
        have z: "\<not> (x = Ocr \<and> ?pv)" using neq by simp
        show ?thesis unfolding tr ih a3 c if_not_P [OF z] by simp
      qed
    qed
  qed
qed

lemma get_delay_values: "get_delay 0 = 1" "get_delay 1 = 2" "get_delay 2 = 4" "get_delay 4 = 10"
  "get_delay (Suc 0) = 2"
  by (simp_all add: get_delay_def INITIAL_DELAY_def BACKOFF_FACTOR_def MAX_DELAY_def)

lemma extract_text_attempts:
  "distinct extractors \<Longrightarrow>
   attempt_count name (snd (extract_text cfg nrm beh extractors page_num)) =
     (if reached cfg nrm beh extractors page_num name
      then (if beh name = Raised then MAX_RETRIES else 1) else 0)"
  unfolding extract_text_def reached_def
  by (simp add: extract_loop_attempts del: extract_loop.simps)

lemma extract_text_previews:
  assumes "distinct extractors"
  shows "preview_count name (snd (extract_text cfg nrm beh extractors page_num)) =
     (if previewed nrm beh extractors name then 1 else 0)"
proof -
  have c: "previewed nrm beh extractors name =
     (Ocr \<in> set extractors \<and>
      list_all (\<lambda>n. \<not> accepts nrm (beh n)) (takeWhile (\<lambda>n. n \<noteq> Ocr) extractors) \<and>
      name \<noteq> Ocr \<and> name \<in> set extractors \<and>
      list_all (\<lambda>n. n = Ocr \<or> beh n = Raised) (takeWhile (\<lambda>n. n \<noteq> name) extractors))"
    unfolding previewed_def by blast
  show ?thesis
    unfolding extract_text_def c extract_loop_previews [OF assms assms] by simp
qed

lemma raising_chain_trace:
  "snd (extract_text default_blank_config no_normalisation always_raises
          [Pdfminer, Pdfplumber, Pypdf2, Ocr] 0) =
     [Attempt Pdfminer 0, Sleep 1, Attempt Pdfminer 1, Sleep 2, Attempt Pdfminer 2,
      Attempt Pdfplumber 0, Sleep 1, Attempt Pdfplumber 1, Sleep 2, Attempt Pdfplumber 2,
      Attempt Pypdf2 0, Sleep 1, Attempt Pypdf2 1, Sleep 2, Attempt Pypdf2 2,
      Preview Pdfminer, Preview Pdfplumber, Preview Pypdf2]"
  by (simp add: extract_text_def always_raises_def MAX_RETRIES_def numeral_3_eq_3
      needs_ocr_def is_truly_blank_def strip_def get_delay_values)

lemma empty_chain_trace:
  "snd (extract_text default_blank_config no_normalisation (natives_return [])
          [Pdfminer, Pdfplumber, Pypdf2, Ocr] 0) =
     [Attempt Pdfminer 0, Attempt Pdfplumber 0, Attempt Pypdf2 0, Preview Pdfminer]"
  by (simp add: extract_text_def natives_return_def MAX_RETRIES_def numeral_3_eq_3
      needs_ocr_def is_truly_blank_def strip_def)

lemma raising_reached:
  "reached default_blank_config no_normalisation always_raises [Pdfminer, Pdfplumber, Pypdf2, Ocr] 0
     Pdfplumber"
  "previewed no_normalisation always_raises [Pdfminer, Pdfplumber, Pypdf2, Ocr] Pdfplumber"
  by (simp_all add: reached_def previewed_def accepts_def always_raises_def)

lemma empty_reached:
  "reached default_blank_config no_normalisation (natives_return []) [Pdfminer, Pdfplumber, Pypdf2, Ocr] 0
     Pdfplumber"
  "\<not> previewed no_normalisation (natives_return []) [Pdfminer, Pdfplumber, Pypdf2, Ocr] Pdfplumber"
  by (simp_all add: reached_def previewed_def accepts_def natives_return_def)

text \<open>
  Claim C7, as the code has it.  A strategy that raises on every call is tried by the
  retry loop exactly \<open>MAX_RETRIES = 3\<close> times: the log grows by the attempts 0, 1, 2 with
  a sleep of \<open>get_delay 0 = 1\<close> and of \<open>get_delay 1 = 2\<close> between consecutive attempts and
  none after the last, and the walk goes on with the rest of the chain.  A call that
  returns an empty text is logged once by the retry loop and not repeated by it.  These
  are not all the calls: when the walk gets to OCR, \<^verbatim>\<open>_try_non_ocr_preview\<close> calls the
  non-OCR strategies once more, each until one of them returns.  On a chain without
  repeated names, as \<^verbatim>\<open>__init__\<close> builds it, the run of \<^verbatim>\<open>extract\<close> therefore calls a
  strategy from the retry loop 3 times if it raises and once otherwise, provided the loop
  gets to it, and once more from the preview if the preview gets to it.  For the attempts
  below 1024, where the float power does not overflow, the delay is
  \<open>min (INITIAL_DELAY * BACKOFF_FACTOR ^ attempt) MAX_DELAY\<close>, it never decreases from one
  attempt to the next and never exceeds \<open>MAX_DELAY\<close>.
\<close>

theorem retry_attempts_and_preview_calls:
  "(beh name = Raised \<and> (name = Ocr \<longrightarrow> needs_ocr cfg (preview_text beh extractors) page_num) \<longrightarrow>
      retry_loop nrm beh name 0 MAX_RETRIES tr0 =
        (None, tr0 @ [Attempt name 0, Sleep (get_delay 0), Attempt name 1, Sleep (get_delay 1),
                      Attempt name 2]) \<and>
      extract_loop cfg nrm beh page_num extractors (name # rest) tr =
        extract_loop cfg nrm beh page_num extractors rest
          ((if name = Ocr then snd (try_non_ocr_preview beh extractors tr) else tr)
           @ [Attempt name 0, Sleep (get_delay 0), Attempt name 1, Sleep (get_delay 1),
              Attempt name 2])) \<and>
   (beh name = Returned [] c \<and> (name = Ocr \<longrightarrow> needs_ocr cfg (preview_text beh extractors) page_num) \<longrightarrow>
      retry_loop nrm beh name 0 MAX_RETRIES tr0 = (None, tr0 @ [Attempt name 0]) \<and>
      extract_loop cfg nrm beh page_num extractors (name # rest) tr =
        extract_loop cfg nrm beh page_num extractors rest
          ((if name = Ocr then snd (try_non_ocr_preview beh extractors tr) else tr)
           @ [Attempt name 0])) \<and>
   (distinct extractors \<longrightarrow>
      attempt_count name (snd (extract_text cfg nrm beh extractors page_num)) =
        (if reached cfg nrm beh extractors page_num name
         then (if beh name = Raised then MAX_RETRIES else 1) else 0) \<and>
      preview_count name (snd (extract_text cfg nrm beh extractors page_num)) =
        (if previewed nrm beh extractors name then 1 else 0) \<and>
      call_count name (snd (extract_text cfg nrm beh extractors page_num)) =
        (if reached cfg nrm beh extractors page_num name
         then (if beh name = Raised then MAX_RETRIES else 1) else 0) +
        (if previewed nrm beh extractors name then 1 else 0)) \<and>
   MAX_RETRIES = 3 \<and> get_delay 0 = 1 \<and> get_delay 1 = 2 \<and>
   (a < 1024 \<longrightarrow>
      get_delay a = min (INITIAL_DELAY * BACKOFF_FACTOR ^ a) MAX_DELAY \<and> get_delay a \<le> MAX_DELAY) \<and>
   (Suc a < 1024 \<longrightarrow> get_delay a \<le> get_delay (Suc a))"
proof -
  let ?tr1 = "if name = Ocr then snd (try_non_ocr_preview beh extractors tr) else tr"
  have pv: "fst (try_non_ocr_preview beh extractors tr) = preview_text beh extractors"
    unfolding preview_text_def by (rule preview_fst)
  have step: "name = Ocr \<longrightarrow> needs_ocr cfg (preview_text beh extractors) page_num \<Longrightarrow>
      extract_loop cfg nrm beh page_num extractors (name # rest) tr =
        (case retry_loop nrm beh name 0 MAX_RETRIES ?tr1 of
           (Some (text, confidence), tr2) \<Rightarrow> ((text, method_of_name name, confidence), tr2)
         | (None, tr2) \<Rightarrow> extract_loop cfg nrm beh page_num extractors rest tr2)"
    using pv by (intro extract_loop_step) simp
  have raised: "beh name = Raised \<Longrightarrow> name = Ocr \<longrightarrow> needs_ocr cfg (preview_text beh extractors) page_num \<Longrightarrow>
      extract_loop cfg nrm beh page_num extractors (name # rest) tr =
        extract_loop cfg nrm beh page_num extractors rest
          (?tr1 @ [Attempt name 0, Sleep (get_delay 0), Attempt name 1, Sleep (get_delay 1),
              Attempt name 2])"
    using step by (simp add: retry_loop_raised del: extract_loop.simps)
  have empty: "beh name = Returned [] c \<Longrightarrow> name = Ocr \<longrightarrow> needs_ocr cfg (preview_text beh extractors) page_num \<Longrightarrow>
      extract_loop cfg nrm beh page_num extractors (name # rest) tr =
        extract_loop cfg nrm beh page_num extractors rest (?tr1 @ [Attempt name 0])"
    using step by (simp add: retry_loop_returned accepts_def del: extract_loop.simps)
  have r1: "beh name = Raised \<Longrightarrow> retry_loop nrm beh name 0 MAX_RETRIES tr0 =
        (None, tr0 @ [Attempt name 0, Sleep (get_delay 0), Attempt name 1, Sleep (get_delay 1),
                      Attempt name 2])"
    by (rule retry_loop_raised)
  have r2: "beh name = Returned [] c \<Longrightarrow> retry_loop nrm beh name 0 MAX_RETRIES tr0 = (None, tr0 @ [Attempt name 0])"
    by (simp add: retry_loop_returned accepts_def)
  have p1: "beh name = Raised \<and> (name = Ocr \<longrightarrow> needs_ocr cfg (preview_text beh extractors) page_num) \<longrightarrow>
      retry_loop nrm beh name 0 MAX_RETRIES tr0 =
        (None, tr0 @ [Attempt name 0, Sleep (get_delay 0), Attempt name 1, Sleep (get_delay 1),
                      Attempt name 2]) \<and>
      extract_loop cfg nrm beh page_num extractors (name # rest) tr =
        extract_loop cfg nrm beh page_num extractors rest
          (?tr1 @ [Attempt name 0, Sleep (get_delay 0), Attempt name 1, Sleep (get_delay 1),
              Attempt name 2])"
    using raised r1 by blast
  have p2: "beh name = Returned [] c \<and> (name = Ocr \<longrightarrow> needs_ocr cfg (preview_text beh extractors) page_num) \<longrightarrow>
      retry_loop nrm beh name 0 MAX_RETRIES tr0 = (None, tr0 @ [Attempt name 0]) \<and>
      extract_loop cfg nrm beh page_num extractors (name # rest) tr =
        extract_loop cfg nrm beh page_num extractors rest (?tr1 @ [Attempt name 0])"
    using empty r2 by blast
  have p3: "distinct extractors \<longrightarrow>
      attempt_count name (snd (extract_text cfg nrm beh extractors page_num)) =
        (if reached cfg nrm beh extractors page_num name
         then (if beh name = Raised then MAX_RETRIES else 1) else 0) \<and>
      preview_count name (snd (extract_text cfg nrm beh extractors page_num)) =
        (if previewed nrm beh extractors name then 1 else 0) \<and>
      call_count name (snd (extract_text cfg nrm beh extractors page_num)) =
        (if reached cfg nrm beh extractors page_num name
         then (if beh name = Raised then MAX_RETRIES else 1) else 0) +
        (if previewed nrm beh extractors name then 1 else 0)"
    unfolding call_count_def using extract_text_attempts extract_text_previews by simp
  have p4: "MAX_RETRIES = 3" by (simp add: MAX_RETRIES_def)
  have p5: "a < 1024 \<longrightarrow>
      get_delay a = min (INITIAL_DELAY * BACKOFF_FACTOR ^ a) MAX_DELAY \<and> get_delay a \<le> MAX_DELAY"
    using get_delay_cap [of a] by (simp add: get_delay_def)
  have p6: "Suc a < 1024 \<longrightarrow> get_delay a \<le> get_delay (Suc a)"
    using get_delay_mono [of a] by simp
  show ?thesis
    by (intro conjI p1 p2 p3 p4 p5 p6 get_delay_values(1) get_delay_values(2))
qed

theorem retry_attempts_and_preview_calls_witness:
  "always_raises Pdfplumber = Raised \<and>
   distinct [Pdfminer, Pdfplumber, Pypdf2, Ocr] \<and>
   reached default_blank_config no_normalisation always_raises [Pdfminer, Pdfplumber, Pypdf2, Ocr] 0
     Pdfplumber \<and>
   previewed no_normalisation always_raises [Pdfminer, Pdfplumber, Pypdf2, Ocr] Pdfplumber \<and>
   retry_loop no_normalisation always_raises Pdfplumber 0 MAX_RETRIES [] =
     (None, [Attempt Pdfplumber 0, Sleep 1, Attempt Pdfplumber 1, Sleep 2, Attempt Pdfplumber 2]) \<and>
   extract_loop default_blank_config no_normalisation always_raises 0
       [Pdfminer, Pdfplumber, Pypdf2, Ocr] [Pdfplumber, Pypdf2, Ocr] [] =
     extract_loop default_blank_config no_normalisation always_raises 0
       [Pdfminer, Pdfplumber, Pypdf2, Ocr] [Pypdf2, Ocr]
       [Attempt Pdfplumber 0, Sleep 1, Attempt Pdfplumber 1, Sleep 2, Attempt Pdfplumber 2] \<and>
   attempt_count Pdfplumber (snd (extract_text default_blank_config no_normalisation always_raises
       [Pdfminer, Pdfplumber, Pypdf2, Ocr] 0)) = 3 \<and>
   preview_count Pdfplumber (snd (extract_text default_blank_config no_normalisation always_raises
       [Pdfminer, Pdfplumber, Pypdf2, Ocr] 0)) = 1 \<and>
   call_count Pdfplumber (snd (extract_text default_blank_config no_normalisation always_raises
       [Pdfminer, Pdfplumber, Pypdf2, Ocr] 0)) = 4 \<and>
   natives_return [] Pdfplumber = Returned [] None \<and>
   reached default_blank_config no_normalisation (natives_return []) [Pdfminer, Pdfplumber, Pypdf2, Ocr] 0
     Pdfplumber \<and>
   \<not> previewed no_normalisation (natives_return []) [Pdfminer, Pdfplumber, Pypdf2, Ocr] Pdfplumber \<and>
   retry_loop no_normalisation (natives_return []) Pdfplumber 0 MAX_RETRIES [] =
     (None, [Attempt Pdfplumber 0]) \<and>
   call_count Pdfplumber (snd (extract_text default_blank_config no_normalisation (natives_return [])
       [Pdfminer, Pdfplumber, Pypdf2, Ocr] 0)) = 1 \<and>
   get_delay 4 = min (INITIAL_DELAY * BACKOFF_FACTOR ^ 4) MAX_DELAY \<and>
   get_delay 4 = MAX_DELAY \<and> get_delay 4 \<le> get_delay 5"
proof -
  have h1: "always_raises Pdfplumber = Raised" by (simp add: always_raises_def)
  have h2: "natives_return [] Pdfplumber = Returned [] None" by (simp add: natives_return_def)
  have d: "distinct [Pdfminer, Pdfplumber, Pypdf2, Ocr]" by simp
  have m: "get_delay 4 = MAX_DELAY" by (simp add: get_delay_values MAX_DELAY_def)
  note w1 = retry_attempts_and_preview_calls [of always_raises Pdfplumber default_blank_config
        "[Pdfminer, Pdfplumber, Pypdf2, Ocr]" 0 no_normalisation "[]" "[Pypdf2, Ocr]" "[]" None 4]
  note w2 = retry_attempts_and_preview_calls [of "natives_return []" Pdfplumber default_blank_config
        "[Pdfminer, Pdfplumber, Pypdf2, Ocr]" 0 no_normalisation "[]" "[Pypdf2, Ocr]" "[]" None 4]
  show ?thesis
    using w1 w2 h1 h2 d m raising_reached empty_reached
    by (simp add: get_delay_values del: extract_loop.simps retry_loop.simps)
qed

text \<open>
  The claim as stated fails on the default chain when every strategy raises: each
  non-OCR strategy is called four times, three times by the retry loop and once by the
  preview taken at OCR.  Likewise a strategy that returns an empty text is called a
  second time by the preview.
\<close>

theorem retry_attempts_and_preview_calls_counterexample:
  "always_raises Pdfminer = Raised \<and>
   snd (extract_text default_blank_config no_normalisation always_raises
          [Pdfminer, Pdfplumber, Pypdf2, Ocr] 0) =
     [Attempt Pdfminer 0, Sleep 1, Attempt Pdfminer 1, Sleep 2, Attempt Pdfminer 2,
      Attempt Pdfplumber 0, Sleep 1, Attempt Pdfplumber 1, Sleep 2, Attempt Pdfplumber 2,
      Attempt Pypdf2 0, Sleep 1, Attempt Pypdf2 1, Sleep 2, Attempt Pypdf2 2,
      Preview Pdfminer, Preview Pdfplumber, Preview Pypdf2] \<and>
   call_count Pdfminer (snd (extract_text default_blank_config no_normalisation always_raises
          [Pdfminer, Pdfplumber, Pypdf2, Ocr] 0)) = 4 \<and>
   call_count Pdfminer (snd (extract_text default_blank_config no_normalisation always_raises
          [Pdfminer, Pdfplumber, Pypdf2, Ocr] 0)) \<noteq> MAX_RETRIES \<and>
   natives_return [] Pdfminer = Returned [] None \<and>
   snd (extract_text default_blank_config no_normalisation (natives_return [])
          [Pdfminer, Pdfplumber, Pypdf2, Ocr] 0) =
     [Attempt Pdfminer 0, Attempt Pdfplumber 0, Attempt Pypdf2 0, Preview Pdfminer] \<and>
   call_count Pdfminer (snd (extract_text default_blank_config no_normalisation (natives_return [])
          [Pdfminer, Pdfplumber, Pypdf2, Ocr] 0)) = 2"
  unfolding raising_chain_trace empty_chain_trace
  by (simp add: call_count_def always_raises_def natives_return_def MAX_RETRIES_def)

subsection \<open>Escalation to OCR\<close>

text \<open>
  Claim C4, as the code has it.  The retry loop calls the OCR strategy exactly when OCR is
  in the chain, no strategy before it had its result accepted, and
  \<^verbatim>\<open>needs_ocr\<close> holds of the preview; \<^verbatim>\<open>needs_ocr\<close> holds when the page is not
  classified as truly blank and the stripped preview is shorter than \<open>min_chars_ocr\<close>.
  So a preview of at least \<open>min_chars_ocr\<close> characters never leads to an OCR call, while a
  shorter preview leads to one only if the page is not blank and the walk reaches OCR.
\<close>

theorem ocr_escalation:
  "ocr_invoked (snd (extract_text cfg nrm beh extractors page_num)) =
     (Ocr \<in> set extractors \<and>
      (\<forall>n \<in> set (takeWhile (\<lambda>n. n \<noteq> Ocr) extractors). \<not> accepts nrm (beh n)) \<and>
      needs_ocr cfg (preview_text beh extractors) page_num) \<and>
   needs_ocr cfg text page_num =
     (\<not> is_truly_blank cfg text page_num \<and> int (length (strip text)) < min_chars_ocr cfg) \<and>
   (min_chars_ocr cfg \<le> int (length (strip (preview_text beh extractors))) \<longrightarrow>
      \<not> ocr_invoked (snd (extract_text cfg nrm beh extractors page_num)))"
proof -
  have inv: "ocr_invoked (snd (extract_text cfg nrm beh extractors page_num)) =
     (Ocr \<in> set extractors \<and>
      (\<forall>n \<in> set (takeWhile (\<lambda>n. n \<noteq> Ocr) extractors). \<not> accepts nrm (beh n)) \<and>
      needs_ocr cfg (preview_text beh extractors) page_num)"
    unfolding extract_text_def
    by (rule extract_loop_ocr_invoked) (simp add: ocr_invoked_def)
  have n: "needs_ocr cfg t page_num =
     (\<not> is_truly_blank cfg t page_num \<and> int (length (strip t)) < min_chars_ocr cfg)" for t
    by (simp add: needs_ocr_def)
  show ?thesis using inv n by simp
qed

theorem ocr_escalation_witness:
  "ocr_invoked (snd (extract_text default_blank_config drops_watermark (natives_return watermark_only)
      [Pdfminer, Pdfplumber, Pypdf2, Ocr] 7)) \<and>
   needs_ocr default_blank_config watermark_only 7 \<and>
   min_chars_ocr default_blank_config \<le>
     int (length (strip (preview_text (natives_return seventy_chars)
        [Pdfminer, Pdfplumber, Pypdf2, Ocr]))) \<and>
   \<not> ocr_invoked (snd (extract_text default_blank_config drops_watermark
      (natives_return seventy_chars)
      [Pdfminer, Pdfplumber, Pypdf2, Ocr] 7))"
proof -
  have pv: "preview_text (natives_return t) [Pdfminer, Pdfplumber, Pypdf2, Ocr] = t" for t
    by (simp add: preview_text_def natives_return_def)
  have st: "strip watermark_only = watermark_only"
    by (simp add: strip_def watermark_only_def is_space_def)
  have n: "needs_ocr default_blank_config watermark_only 7"
    by (simp add: needs_ocr_def is_truly_blank_def default_blank_config_def st)
       (simp add: watermark_only_def)
  have a: "\<not> accepts drops_watermark (natives_return watermark_only n)" for n
    by (simp add: accepts_def natives_return_def drops_watermark_def)
  have l: "min_chars_ocr default_blank_config \<le>
     int (length (strip seventy_chars))"
    by (simp add: strip_def is_space_def default_blank_config_def seventy_chars_def)
  have w1: "ocr_invoked (snd (extract_text default_blank_config drops_watermark
      (natives_return watermark_only) [Pdfminer, Pdfplumber, Pypdf2, Ocr] 7))"
    using ocr_escalation [of default_blank_config drops_watermark "natives_return watermark_only"
        "[Pdfminer, Pdfplumber, Pypdf2, Ocr]" 7 watermark_only, THEN conjunct1] pv n a
    by simp
  have w2: "\<not> ocr_invoked (snd (extract_text default_blank_config drops_watermark
      (natives_return seventy_chars)
      [Pdfminer, Pdfplumber, Pypdf2, Ocr] 7))"
    using ocr_escalation [of default_blank_config drops_watermark
        "natives_return seventy_chars"
        "[Pdfminer, Pdfplumber, Pypdf2, Ocr]" 7 watermark_only, THEN conjunct2, THEN conjunct2] pv l
    by simp
  show ?thesis using w1 w2 n l pv by simp
qed

text \<open>
  The claim as stated fails for a page on which the native extractors return no text: the
  preview has length 0, below the threshold of 50, the page counts as truly blank and OCR is
  not called.
\<close>

theorem ocr_escalation_counterexample:
  "int (length (preview_text (natives_return '''') [Pdfminer, Pdfplumber, Pypdf2, Ocr]))
     < min_chars_ocr default_blank_config \<and>
   \<not> ocr_invoked (snd (extract_text default_blank_config no_normalisation (natives_return '''')
        [Pdfminer, Pdfplumber, Pypdf2, Ocr] 7))"
  by (simp add: preview_text_def natives_return_def default_blank_config_def extract_text_def
      MAX_RETRIES_def numeral_3_eq_3 needs_ocr_def is_truly_blank_def strip_def ocr_invoked_def)

subsection \<open>Method recorded for an accepted preview\<close>

text \<open>
  Claim C5 says that the method recorded for an accepted preview is the strategy that
  produced the preview.  With the chain pdfminer, OCR and a first page on which pdfminer
  returns the text abc, the retry loop rejects the text (3 characters), the preview is that
  text, from pdfminer, OCR is not needed, and the result carries the method PDFPLUMBER.
\<close>

theorem preview_method_hardcoded:
  "fst (extract_text default_blank_config no_normalisation (only_pdfminer_returns ''abc'')
      [Pdfminer, Ocr] 0) = (''abc'', PDFPLUMBER, None) \<and>
   preview_source (only_pdfminer_returns ''abc'') [Pdfminer, Ocr] = Some Pdfminer \<and>
   preview_text (only_pdfminer_returns ''abc'') [Pdfminer, Ocr] = ''abc'' \<and>
   \<not> needs_ocr default_blank_config ''abc'' 0 \<and>
   method_of_name Pdfminer \<noteq> PDFPLUMBER"
  by (simp add: extract_text_def only_pdfminer_returns_def no_normalisation_def MAX_RETRIES_def
      numeral_3_eq_3 needs_ocr_def is_truly_blank_def strip_def is_space_def
      default_blank_config_def preview_source_def preview_text_def)

subsection \<open>Cards of pages without text\<close>

text \<open>
  Claim C2, as the code has it.  When no strategy of the chain has its result accepted and
  the preview is not returned either, the card of the page has an empty \<open>segment\<close> and the
  extraction method none.  In every card that the page loop appends, the extraction method
  is none only if the segment is empty; a card whose \<open>error\<close> field is true has the method
  none and an empty segment.
\<close>

theorem exhausted_page_card:
  "(\<not> escaped \<and> (\<forall>n \<in> set extractors. \<not> accepts nrm (beh n)) \<and>
    (Ocr \<in> set extractors \<longrightarrow>
       needs_ocr cfg (preview_text beh extractors) page_num \<or> preview_text beh extractors = [])
    \<longrightarrow> map_of (page_card escaped cfg nrm beh extractors tables pdf_name page_num) ''segment''
          = Some (JStr '''') \<and>
        map_of (page_card escaped cfg nrm beh extractors tables pdf_name page_num) ''extraction_method''
          = Some (JStr ''none'')) \<and>
   (map_of (page_card escaped cfg nrm beh extractors tables pdf_name page_num) ''extraction_method''
      = Some (JStr ''none'')
    \<longrightarrow> map_of (page_card escaped cfg nrm beh extractors tables pdf_name page_num) ''segment''
          = Some (JStr '''')) \<and>
   (map_of (page_card escaped cfg nrm beh extractors tables pdf_name page_num) ''error''
      = Some (JBool True)
    \<longrightarrow> map_of (page_card escaped cfg nrm beh extractors tables pdf_name page_num) ''extraction_method''
          = Some (JStr ''none'') \<and>
        map_of (page_card escaped cfg nrm beh extractors tables pdf_name page_num) ''segment''
          = Some (JStr ''''))"
proof (cases escaped)
  case True
  then show ?thesis by (simp add: page_card_def create_error_card_def)
next
  case False
  obtain t m conf where r: "fst (extract_text cfg nrm beh extractors page_num) = (t, m, conf)"
    by (metis prod_cases3)
  note f = process_page_fields [OF r, of tables pdf_name]
  have none_empty: "m = NONE \<Longrightarrow> t = []"
    using extract_loop_none_empty [of cfg nrm beh page_num extractors extractors "[]"] r
    by (simp add: extract_text_def)
  have exh: "(\<forall>n \<in> set extractors. \<not> accepts nrm (beh n)) \<Longrightarrow>
    (Ocr \<in> set extractors \<longrightarrow>
       needs_ocr cfg (preview_text beh extractors) page_num \<or> preview_text beh extractors = []) \<Longrightarrow>
    t = [] \<and> m = NONE"
    using extract_loop_exhausted [of extractors nrm beh cfg extractors page_num "[]"] r
    by (simp add: extract_text_def)
  show ?thesis using False f none_empty exh
    by (auto simp add: page_card_def method_value_none)
qed

theorem exhausted_page_card_witness:
  "\<not> accepts no_normalisation (always_raises Pdfminer) \<and>
   \<not> accepts no_normalisation (always_raises Pdfplumber) \<and>
   \<not> accepts no_normalisation (always_raises Pypdf2) \<and>
   \<not> accepts no_normalisation (always_raises Ocr) \<and>
   preview_text always_raises [Pdfminer, Pdfplumber, Pypdf2, Ocr] = [] \<and>
   map_of (page_card False default_blank_config no_normalisation always_raises
       [Pdfminer, Pdfplumber, Pypdf2, Ocr] [] ''book.pdf'' 0) ''segment'' = Some (JStr '''') \<and>
   map_of (page_card False default_blank_config no_normalisation always_raises
       [Pdfminer, Pdfplumber, Pypdf2, Ocr] [] ''book.pdf'' 0) ''extraction_method'' = Some (JStr ''none'') \<and>
   map_of (page_card True default_blank_config no_normalisation always_raises
       [Pdfminer, Pdfplumber, Pypdf2, Ocr] [] ''book.pdf'' 0) ''error'' = Some (JBool True) \<and>
   map_of (page_card True default_blank_config no_normalisation always_raises
       [Pdfminer, Pdfplumber, Pypdf2, Ocr] [] ''book.pdf'' 0) ''extraction_method'' = Some (JStr ''none'')"
proof -
  have a: "\<forall>n \<in> set [Pdfminer, Pdfplumber, Pypdf2, Ocr]. \<not> accepts no_normalisation (always_raises n)"
    by (simp add: accepts_def always_raises_def)
  have p: "preview_text always_raises [Pdfminer, Pdfplumber, Pypdf2, Ocr] = []"
    by (simp add: preview_text_def always_raises_def)
  have e: "map_of (page_card True default_blank_config no_normalisation always_raises
       [Pdfminer, Pdfplumber, Pypdf2, Ocr] [] ''book.pdf'' 0) ''error'' = Some (JBool True)"
    by (simp add: page_card_def create_error_card_def)
  show ?thesis
    using exhausted_page_card [of False "[Pdfminer, Pdfplumber, Pypdf2, Ocr]" no_normalisation
        always_raises default_blank_config 0 "[]" "''book.pdf''"]
      exhausted_page_card [of True "[Pdfminer, Pdfplumber, Pypdf2, Ocr]" no_normalisation
        always_raises default_blank_config 0 "[]" "''book.pdf''"]
      a p e
    by simp
qed

text \<open>
  The claim as stated fails: on a page where all four strategies raise, the card has the
  method none and no \<open>error\<close> field.
\<close>

theorem exhausted_page_card_counterexample:
  "fst (extract_text default_blank_config no_normalisation always_raises
       [Pdfminer, Pdfplumber, Pypdf2, Ocr] 0) = ('''', NONE, None) \<and>
   map_of (page_card False default_blank_config no_normalisation always_raises
       [Pdfminer, Pdfplumber, Pypdf2, Ocr] [] ''book.pdf'' 0) ''extraction_method'' = Some (JStr ''none'') \<and>
   map_of (page_card False default_blank_config no_normalisation always_raises
       [Pdfminer, Pdfplumber, Pypdf2, Ocr] [] ''book.pdf'' 0) ''error'' \<noteq> Some (JBool True)"
proof -
  have r: "fst (extract_text default_blank_config no_normalisation always_raises
       [Pdfminer, Pdfplumber, Pypdf2, Ocr] 0) = ('''', NONE, None)"
    by (simp add: extract_text_def always_raises_def MAX_RETRIES_def numeral_3_eq_3
        needs_ocr_def is_truly_blank_def strip_def)
  show ?thesis using r process_page_fields [OF r, of "[]" "''book.pdf''"]
    by (simp add: page_card_def)
qed

section \<open>Properties of validate\_structure\<close>

lemma card_errors_reserved:
  "map_of c ''segment_id'' = Some (JStr sid) \<Longrightarrow> sid \<in> {HEADER_ID, AUDIT_ID, FOOTER_ID} \<Longrightarrow>
   card_errors required_fields i c \<noteq> []"
  by (auto simp add: card_errors_def)

lemma enumerate_member: "c \<in> set cards \<Longrightarrow> \<exists>i. (i, c) \<in> set (enumerate n cards)"
proof (induction cards arbitrary: n)
  case Nil then show ?case by simp
next
  case (Cons x xs)
  show ?case
  proof (cases "c = x")
    case True then show ?thesis by auto
  next
    case False
    then have "c \<in> set xs" using Cons.prems by simp
    then obtain i where "(i, c) \<in> set (enumerate (Suc n) xs)" using Cons.IH by blast
    then show ?thesis by auto
  qed
qed

text \<open>
  Claim C3, as the code has it.  \<^verbatim>\<open>validate_structure\<close> returns at least one error for
  every card list that contains a card whose \<open>segment_id\<close> is one of the three reserved
  identifiers, whatever the header and the stage.  It does not compare the identifiers of
  different cards.
\<close>

theorem validate_structure_rejects_reserved:
  assumes "c \<in> set cards"
    and "map_of c ''segment_id'' = Some (JStr sid)"
    and "sid \<in> {HEADER_ID, AUDIT_ID, FOOTER_ID}"
  shows "validate_structure header cards stage \<noteq> []"
proof -
  obtain i where i: "(i, c) \<in> set (enumerate 0 cards)"
    using enumerate_member [OF assms(1)] by blast
  have "card_errors fs i c \<noteq> []" for fs
    using card_errors_reserved [OF assms(2,3)] .
  then have "concat (map (\<lambda>(i, c). card_errors fs i c) (enumerate 0 cards)) \<noteq> []" for fs
    using i by (simp add: concat_eq_Nil_conv) (rule bexI [of _ "(i, c)"], simp_all)
  moreover have "cards \<noteq> []" using assms(1) by auto
  ultimately show ?thesis
    by (simp add: validate_structure_def Let_def)
qed

theorem validate_structure_rejects_reserved_witness:
  "card_reserved \<in> set [card_a, card_reserved] \<and>
   map_of card_reserved ''segment_id'' = Some (JStr ''__audit__'') \<and>
   ''__audit__'' \<in> {HEADER_ID, AUDIT_ID, FOOTER_ID} \<and>
   validate_structure header_min [card_a, card_reserved] None \<noteq> []"
proof -
  have h1: "card_reserved \<in> set [card_a, card_reserved]" by simp
  have h2: "map_of card_reserved ''segment_id'' = Some (JStr ''__audit__'')"
    by (simp add: card_reserved_def)
  have h3: "''__audit__'' \<in> {HEADER_ID, AUDIT_ID, FOOTER_ID}" by (simp add: AUDIT_ID_def)
  show ?thesis
    using validate_structure_rejects_reserved [OF h1 h2 h3, of header_min None] h1 h2 h3
    by simp
qed

text \<open>
  The claim as stated fails: two cards with the same \<open>segment_id\<close> pass the validation.
\<close>

theorem validate_structure_duplicate_counterexample:
  "map_of card_a ''segment_id'' = map_of card_a_again ''segment_id'' \<and>
   validate_structure header_min [card_a, card_a_again] None = []"
  by (simp add: validate_structure_def header_errors_def has_key_def header_min_def card_a_def
      card_a_again_def card_errors_def HEADER_ID_def AUDIT_ID_def FOOTER_ID_def)

section \<open>Properties of the continuity audit\<close>

lemma get_segment_flagged:
  "set_continuity_gap c = Inr c' \<Longrightarrow> get_segment c' = get_segment c"
  by (auto simp add: set_continuity_gap_def get_segment_def update_conv' split: option.splits jval.splits)

lemma map_of_flagged:
  "set_continuity_gap c = Inr c' \<Longrightarrow> k \<noteq> ''flags'' \<Longrightarrow> map_of c' k = map_of c k"
  by (auto simp add: set_continuity_gap_def update_conv' split: option.splits jval.splits)

lemma flagged_has_flag:
  "set_continuity_gap c = Inr c' \<Longrightarrow>
   \<exists>flags. map_of c' ''flags'' = Some (JObj flags) \<and> map_of flags ''continuity_gap'' = Some (JBool True)"
  by (auto simp add: set_continuity_gap_def update_conv' split: option.splits jval.splits)

lemma set_continuity_gap_total:
  "map_of c ''flags'' = None \<or> (\<exists>d. map_of c ''flags'' = Some (JObj d)) \<Longrightarrow>
   \<exists>c'. set_continuity_gap c = Inr c'"
  by (auto simp add: set_continuity_gap_def)

lemma audit_pair_result_keys:
  "audit_pair th p c = Inr (c', g, ov) \<Longrightarrow> k \<noteq> ''flags'' \<Longrightarrow> map_of c' k = map_of c k"
  by (auto simp add: audit_pair_def Let_def map_of_flagged split: if_splits sum.splits)

lemma audit_pair_result_segment:
  "audit_pair th p c = Inr (c', g, ov) \<Longrightarrow> get_segment c' = get_segment c"
  using audit_pair_result_keys [of th p c c' g ov "''segment''"] by (simp add: get_segment_def)

lemma audit_pair_prev_indep:
  "get_segment p' = get_segment p \<Longrightarrow> map_of p' ''page_num'' = map_of p ''page_num'' \<Longrightarrow>
   audit_pair th p' c = audit_pair th p c"
proof -
  assume a: "get_segment p' = get_segment p" "map_of p' ''page_num'' = map_of p ''page_num''"
  have "get_or_null p' ''page_num'' = get_or_null p ''page_num''"
    using a(2) by (simp add: get_or_null_def)
  then show ?thesis using a(1) by (simp add: audit_pair_def Let_def split: sum.split)
qed

text \<open>The loop applies the body to every adjacent pair of the cards it was given.\<close>

lemma audit_loop_pairs:
  "audit_loop th prev rest = Inr (cs', gs, ovs) \<Longrightarrow>
   get_segment prev = get_segment prev0 \<Longrightarrow> map_of prev ''page_num'' = map_of prev0 ''page_num'' \<Longrightarrow>
   length cs' = length rest \<and>
   (\<forall>i < length rest. \<exists>g ov. audit_pair th ((prev0 # rest) ! i) (rest ! i) = Inr (cs' ! i, g, ov) \<and>
        set_option g \<subseteq> set gs \<and> set_option ov \<subseteq> set ovs) \<and>
   (\<forall>x \<in> set gs. \<exists>i < length rest. \<exists>ov. audit_pair th ((prev0 # rest) ! i) (rest ! i) = Inr (cs' ! i, Some x, ov))"
proof (induction rest arbitrary: prev prev0 cs' gs ovs)
  case Nil then show ?case by simp
next
  case (Cons c rest)
  from Cons.prems(1) obtain c' g ov where ap: "audit_pair th prev c = Inr (c', g, ov)"
    by (auto split: sum.splits)
  from Cons.prems(1) ap obtain cs1 gs1 ovs1 where
    al: "audit_loop th c' rest = Inr (cs1, gs1, ovs1)"
    and res: "cs' = c' # cs1" "gs = (case g of Some x \<Rightarrow> [x] | None \<Rightarrow> []) @ gs1"
      "ovs = (case ov of Some x \<Rightarrow> [x] | None \<Rightarrow> []) @ ovs1"
    by (auto split: sum.splits)
  have ap0: "audit_pair th prev0 c = Inr (c', g, ov)"
    using ap audit_pair_prev_indep [OF Cons.prems(2,3)] by simp
  have seg: "get_segment c' = get_segment c" using ap by (rule audit_pair_result_segment)
  have pg: "map_of c' ''page_num'' = map_of c ''page_num''"
    using audit_pair_result_keys [OF ap] by simp
  note IH = Cons.IH [OF al seg pg]
  have len: "length cs' = length (c # rest)" using IH res by simp
  have fw: "\<exists>g ov. audit_pair th ((prev0 # c # rest) ! i) ((c # rest) ! i) = Inr (cs' ! i, g, ov) \<and>
        set_option g \<subseteq> set gs \<and> set_option ov \<subseteq> set ovs" if "i < length (c # rest)" for i
  proof (cases i)
    case 0
    then show ?thesis using ap0 res by (auto split: option.splits)
  next
    case (Suc j)
    then have "j < length rest" using that by simp
    then obtain g1 ov1 where "audit_pair th ((c # rest) ! j) (rest ! j) = Inr (cs1 ! j, g1, ov1)"
      "set_option g1 \<subseteq> set gs1" "set_option ov1 \<subseteq> set ovs1" using IH by blast
    then show ?thesis using Suc res by auto
  qed
  have bw: "\<exists>i < length (c # rest). \<exists>ov. audit_pair th ((prev0 # c # rest) ! i) ((c # rest) ! i) = Inr (cs' ! i, Some x, ov)"
    if "x \<in> set gs" for x
  proof (cases "g = Some x")
    case True
    then show ?thesis using ap0 res by (intro exI [of _ 0]) auto
  next
    case False
    then have "x \<in> set gs1" using that res by (auto split: option.splits)
    then obtain j ov1 where "j < length rest" "audit_pair th ((c # rest) ! j) (rest ! j) = Inr (cs1 ! j, Some x, ov1)"
      using IH by blast
    then show ?thesis using res by (intro exI [of _ "Suc j"]) auto
  qed
  show ?case using len fw bw by blast
qed

lemma audit_continuity_Cons:
  assumes "audit_continuity th (c0 # rest) = Inr (cards', rep)"
  obtains cs' gs ovs where "audit_loop th c0 rest = Inr (cs', gs, ovs)" "cards' = c0 # cs'"
    "gaps rep = gs" "gap_count rep = length gs"
proof -
  obtain r where r: "audit_loop th c0 rest = Inr r"
    using assms by (cases "audit_loop th c0 rest") (simp_all add: audit_continuity_def)
  obtain cs' gs ovs where r3: "r = (cs', gs, ovs)" by (cases r) auto
  have "cards' = c0 # cs'" "rep = make_report th (length (c0 # rest)) gs ovs"
    using assms r r3 by (simp_all add: audit_continuity_def)
  then have "cards' = c0 # cs'" "gaps rep = gs" "gap_count rep = length gs"
    by (simp_all add: make_report_def)
  then show ?thesis using that r r3 by blast
qed

lemma audit_continuity_pairs:
  assumes "audit_continuity th cards = Inr (cards', rep)"
  shows "length cards' = length cards \<and> gap_count rep = length (gaps rep) \<and>
    (\<forall>i. Suc i < length cards \<longrightarrow>
       (\<exists>g ov. audit_pair th (cards ! i) (cards ! Suc i) = Inr (cards' ! Suc i, g, ov) \<and>
                set_option g \<subseteq> set (gaps rep))) \<and>
    (\<forall>x \<in> set (gaps rep). \<exists>i ov. Suc i < length cards \<and>
            audit_pair th (cards ! i) (cards ! Suc i) = Inr (cards' ! Suc i, Some x, ov))"
proof (cases cards)
  case Nil
  have e: "cards' = []" "rep = make_report th 0 [] []"
    using assms Nil by (simp_all add: audit_continuity_def)
  have g: "gaps rep = []" "gap_count rep = 0" using e by (simp_all add: make_report_def)
  show ?thesis using e g Nil by simp
next
  case (Cons c0 rest)
  obtain cs' gs ovs where al: "audit_loop th c0 rest = Inr (cs', gs, ovs)" and c: "cards' = c0 # cs'"
    and g: "gaps rep = gs" "gap_count rep = length gs"
    using assms Cons audit_continuity_Cons by blast
  note P = audit_loop_pairs [OF al refl refl]
  have 1: "length cards' = length cards" using P c Cons by simp
  have 2: "\<exists>g ov. audit_pair th (cards ! i) (cards ! Suc i) = Inr (cards' ! Suc i, g, ov) \<and>
                set_option g \<subseteq> set (gaps rep)" if "Suc i < length cards" for i
  proof -
    have "i < length rest" using that Cons by simp
    then obtain g1 ov1 where "audit_pair th ((c0 # rest) ! i) (rest ! i) = Inr (cs' ! i, g1, ov1)"
      "set_option g1 \<subseteq> set gs" using P by blast
    then show ?thesis using Cons c g by simp
  qed
  have 3: "\<exists>i ov. Suc i < length cards \<and>
            audit_pair th (cards ! i) (cards ! Suc i) = Inr (cards' ! Suc i, Some x, ov)"
    if "x \<in> set (gaps rep)" for x
  proof -
    have "x \<in> set gs" using that g by simp
    then obtain i ov1 where "i < length rest"
      "audit_pair th ((c0 # rest) ! i) (rest ! i) = Inr (cs' ! i, Some x, ov1)" using P by blast
    then have "Suc i < length cards \<and> audit_pair th (cards ! i) (cards ! Suc i) = Inr (cards' ! Suc i, Some x, ov1)"
      using Cons c by simp
    then show ?thesis by blast
  qed
  show ?thesis using 1 2 3 g by blast
qed

lemma jaccard_disjoint:
  "a \<noteq> [] \<Longrightarrow> b \<noteq> [] \<Longrightarrow> set a \<inter> set b = {} \<Longrightarrow> jaccard_similarity a b = 0"
  by (simp add: jaccard_similarity_def Let_def)

lemma jaccard_same: "a \<noteq> [] \<Longrightarrow> jaccard_similarity a a = 1"
proof -
  assume a: "a \<noteq> []"
  then have "0 < card (set a)" by (simp add: card_gt_0_iff)
  then show ?thesis using a by (simp add: jaccard_similarity_def Let_def)
qed

lemma round3_0: "round3 0 = 0"
  by (simp add: round3_def)

lemma audit_pair_skipped_duplicate:
  "is_dup c \<Longrightarrow> audit_pair th p c = Inr (c, None, None)"
  by (simp add: audit_pair_def is_dup_def)

lemma audit_pair_empty_side:
  "get_segment p = Inr ps \<Longrightarrow> get_segment c = Inr cs \<Longrightarrow> tokenize ps = [] \<or> tokenize cs = [] \<Longrightarrow>
   audit_pair th p c = Inr (c, None, None)"
  by (auto simp add: audit_pair_def Let_def)

lemma audit_pair_gap:
  assumes "get_segment p = Inr ps" "get_segment c = Inr cs" "\<not> is_dup c"
    "tokenize ps \<noteq> []" "tokenize cs \<noteq> []"
    "jaccard_similarity (tokenize ps) (tokenize cs) < th"
    "set_continuity_gap c = Inr flagged"
  shows "audit_pair th p c =
     Inr (flagged,
          Some \<lparr>from_page = get_or_null p ''page_num'', to_page = get_or_null c ''page_num'',
                overlap = round3 (jaccard_similarity (tokenize ps) (tokenize cs))\<rparr>,
          Some (jaccard_similarity (tokenize ps) (tokenize cs)))"
  using assms by (simp add: audit_pair_def is_dup_def Let_def)

lemma audit_pair_no_gap:
  assumes "get_segment p = Inr ps" "get_segment c = Inr cs" "\<not> is_dup c"
    "tokenize ps \<noteq> []" "tokenize cs \<noteq> []"
    "\<not> jaccard_similarity (tokenize ps) (tokenize cs) < th"
  shows "audit_pair th p c = Inr (c, None, Some (jaccard_similarity (tokenize ps) (tokenize cs)))"
  using assms by (simp add: audit_pair_def is_dup_def Let_def)

lemma typed_card_segment: "typed_card c \<Longrightarrow> \<exists>s. get_segment c = Inr s"
  by (auto simp add: typed_card_def get_segment_def split: option.splits jval.splits)

lemma typed_card_page: "typed_card c \<Longrightarrow> \<exists>n. get_page_num c = Inr n"
  by (auto simp add: typed_card_def get_page_num_def split: option.splits jval.splits)

lemma typed_card_flags: "typed_card c \<Longrightarrow> \<exists>c'. set_continuity_gap c = Inr c'"
  by (auto simp add: typed_card_def set_continuity_gap_def split: option.splits jval.splits)

lemma audit_pair_total:
  assumes "get_segment p = Inr ps" "typed_card c"
  shows "\<exists>c' g ov. audit_pair th p c = Inr (c', g, ov)"
proof -
  obtain cs where cs: "get_segment c = Inr cs" using typed_card_segment [OF assms(2)] by blast
  obtain fl where fl: "set_continuity_gap c = Inr fl" using typed_card_flags [OF assms(2)] by blast
  show ?thesis using assms(1) cs fl by (simp add: audit_pair_def Let_def)
qed

lemma audit_loop_total:
  "get_segment prev = Inr ps \<Longrightarrow> \<forall>c \<in> set rest. typed_card c \<Longrightarrow>
   \<exists>cs' gs ovs. audit_loop th prev rest = Inr (cs', gs, ovs)"
proof (induction rest arbitrary: prev ps)
  case Nil show ?case by simp
next
  case (Cons c rest)
  have tc: "typed_card c" using Cons.prems(2) by simp
  obtain c' g ov where ap: "audit_pair th prev c = Inr (c', g, ov)"
    using audit_pair_total [OF Cons.prems(1) tc] by blast
  obtain cs where "get_segment c = Inr cs" using typed_card_segment [OF tc] by blast
  then have "get_segment c' = Inr cs" using audit_pair_result_segment [OF ap] by simp
  then obtain cs' gs ovs where "audit_loop th c' rest = Inr (cs', gs, ovs)"
    using Cons.IH Cons.prems(2) by (meson list.set_intros(2))
  then show ?case using ap by simp
qed

lemma audit_continuity_total:
  "\<forall>c \<in> set cards. typed_card c \<Longrightarrow> \<exists>cards' rep. audit_continuity th cards = Inr (cards', rep)"
proof (cases cards)
  case Nil then show ?thesis by (simp add: audit_continuity_def)
next
  case (Cons c0 rest)
  assume t: "\<forall>c \<in> set cards. typed_card c"
  then obtain s where "get_segment c0 = Inr s" using typed_card_segment Cons by auto
  then obtain cs' gs ovs where "audit_loop th c0 rest = Inr (cs', gs, ovs)"
    using audit_loop_total [of c0 s rest th] t Cons by auto
  then show ?thesis using Cons by (simp add: audit_continuity_def)
qed

subsection \<open>Overlap and gaps of adjacent pages\<close>

text \<open>
  Claim C9, as the code has it.  For adjacent cards whose segments are strings: a pair whose
  later card is marked \<open>is_duplicate\<close> is skipped (no overlap, no gap, card unchanged).
  Otherwise, when both pages have at least one token and share none, the overlap is 0 and,
  for a positive threshold, the gap with the two page numbers and overlap 0 is recorded and
  the later card gets \<open>flags.continuity_gap = true\<close>; when the two texts are the same and
  have at least one token, the overlap is 1 and, for a threshold of at most 1, no gap is
  recorded and the card is unchanged.  On typed cards the audit returns a report, and its
  loop applies this step to every adjacent pair: the card at each later position is the
  one the step returns, every gap of a step is in the report and every gap of the report
  comes from a step.
\<close>

theorem continuity_overlap_and_gaps:
  assumes "get_segment prev_card = Inr prev_text"
    and "get_segment curr_card = Inr curr_text"
    and "typed_card curr_card"
  shows
   "(is_dup curr_card \<longrightarrow> audit_pair th prev_card curr_card = Inr (curr_card, None, None)) \<and>
    (\<not> is_dup curr_card \<and> tokenize prev_text \<noteq> [] \<and> tokenize curr_text \<noteq> [] \<and>
     set (tokenize prev_text) \<inter> set (tokenize curr_text) = {} \<longrightarrow>
       jaccard_similarity (tokenize prev_text) (tokenize curr_text) = 0 \<and>
       (0 < th \<longrightarrow>
          (\<exists>flagged flags.
             audit_pair th prev_card curr_card =
               Inr (flagged,
                    Some \<lparr>from_page = get_or_null prev_card ''page_num'',
                          to_page = get_or_null curr_card ''page_num'', overlap = 0\<rparr>,
                    Some 0) \<and>
             map_of flagged ''flags'' = Some (JObj flags) \<and>
             map_of flags ''continuity_gap'' = Some (JBool True)))) \<and>
    (\<not> is_dup curr_card \<and> prev_text = curr_text \<and> tokenize curr_text \<noteq> [] \<longrightarrow>
       jaccard_similarity (tokenize prev_text) (tokenize curr_text) = 1 \<and>
       (th \<le> 1 \<longrightarrow> audit_pair th prev_card curr_card = Inr (curr_card, None, Some 1))) \<and>
    ((\<forall>c \<in> set cards. typed_card c) \<longrightarrow>
       (\<exists>cards' rep. audit_continuity th cards = Inr (cards', rep) \<and>
          length cards' = length cards \<and> gap_count rep = length (gaps rep) \<and>
          (\<forall>i. Suc i < length cards \<longrightarrow>
             (\<exists>g ov. audit_pair th (cards ! i) (cards ! Suc i) = Inr (cards' ! Suc i, g, ov) \<and>
                     set_option g \<subseteq> set (gaps rep))) \<and>
          (\<forall>x \<in> set (gaps rep). \<exists>i ov. Suc i < length cards \<and>
             audit_pair th (cards ! i) (cards ! Suc i) = Inr (cards' ! Suc i, Some x, ov))))"
proof -
  have dup: "is_dup curr_card \<longrightarrow> audit_pair th prev_card curr_card = Inr (curr_card, None, None)"
    by (simp add: audit_pair_skipped_duplicate)
  have zero: "jaccard_similarity (tokenize prev_text) (tokenize curr_text) = 0 \<and>
       (0 < th \<longrightarrow>
          (\<exists>flagged flags.
             audit_pair th prev_card curr_card =
               Inr (flagged,
                    Some \<lparr>from_page = get_or_null prev_card ''page_num'',
                          to_page = get_or_null curr_card ''page_num'', overlap = 0\<rparr>,
                    Some 0) \<and>
             map_of flagged ''flags'' = Some (JObj flags) \<and>
             map_of flags ''continuity_gap'' = Some (JBool True)))"
    if h: "\<not> is_dup curr_card" "tokenize prev_text \<noteq> []" "tokenize curr_text \<noteq> []"
      "set (tokenize prev_text) \<inter> set (tokenize curr_text) = {}"
  proof -
    have j: "jaccard_similarity (tokenize prev_text) (tokenize curr_text) = 0"
      using h by (simp add: jaccard_disjoint)
    obtain flagged where f: "set_continuity_gap curr_card = Inr flagged"
      using typed_card_flags [OF assms(3)] by blast
    obtain flags where fl: "map_of flagged ''flags'' = Some (JObj flags)"
      "map_of flags ''continuity_gap'' = Some (JBool True)"
      using flagged_has_flag [OF f] by blast
    have "0 < th \<Longrightarrow> audit_pair th prev_card curr_card =
               Inr (flagged,
                    Some \<lparr>from_page = get_or_null prev_card ''page_num'',
                          to_page = get_or_null curr_card ''page_num'', overlap = 0\<rparr>,
                    Some 0)"
      using audit_pair_gap [OF assms(1,2) h(1,2,3) _ f, of th] j by (simp add: round3_0)
    then show ?thesis using j fl by blast
  qed
  have same: "jaccard_similarity (tokenize prev_text) (tokenize curr_text) = 1 \<and>
       (th \<le> 1 \<longrightarrow> audit_pair th prev_card curr_card = Inr (curr_card, None, Some 1))"
    if h: "\<not> is_dup curr_card" "prev_text = curr_text" "tokenize curr_text \<noteq> []"
  proof -
    have j: "jaccard_similarity (tokenize prev_text) (tokenize curr_text) = 1"
      using h by (simp add: jaccard_same)
    have "th \<le> 1 \<Longrightarrow> audit_pair th prev_card curr_card = Inr (curr_card, None, Some 1)"
      using audit_pair_no_gap [OF assms(1,2) h(1), of th] h j by simp
    then show ?thesis using j by blast
  qed
  have lst: "\<exists>cards' rep. audit_continuity th cards = Inr (cards', rep) \<and>
          length cards' = length cards \<and> gap_count rep = length (gaps rep) \<and>
          (\<forall>i. Suc i < length cards \<longrightarrow>
             (\<exists>g ov. audit_pair th (cards ! i) (cards ! Suc i) = Inr (cards' ! Suc i, g, ov) \<and>
                     set_option g \<subseteq> set (gaps rep))) \<and>
          (\<forall>x \<in> set (gaps rep). \<exists>i ov. Suc i < length cards \<and>
             audit_pair th (cards ! i) (cards ! Suc i) = Inr (cards' ! Suc i, Some x, ov))"
    if t: "\<forall>c \<in> set cards. typed_card c"
  proof -
    obtain cards' rep where r: "audit_continuity th cards = Inr (cards', rep)"
      using audit_continuity_total [OF t] by blast
    show ?thesis using r audit_continuity_pairs [OF r] by blast
  qed
  show ?thesis using dup zero same lst by blast
qed

lemma sample_segments:
  "get_segment page_alpha = Inr ''alpha beta gamma''"
  "get_segment page_alpha_again = Inr ''alpha beta gamma''"
  "get_segment page_delta = Inr ''delta epsilon''"
  "get_segment page_blank = Inr ''''"
  "get_segment page_stop_words = Inr ''The a of - x''"
  by (simp_all add: get_segment_def page_alpha_def page_alpha_again_def page_delta_def
      page_blank_def page_stop_words_def)

lemma sample_tokens:
  "tokenize ''alpha beta gamma'' = [''alpha'', ''beta'', ''gamma'']"
  "tokenize ''delta epsilon'' = [''delta'', ''epsilon'']"
  "tokenize '''' = []"
  "tokenize ''The a of - x'' = []"
  by code_simp+

lemma sample_typed:
  "typed_card page_alpha" "typed_card page_alpha_again" "typed_card page_delta"
  "typed_card page_blank" "typed_card page_stop_words"
  by (simp_all add: typed_card_def page_alpha_def page_alpha_again_def page_delta_def
      page_blank_def page_stop_words_def)

lemma sample_not_dup:
  "\<not> is_dup page_alpha" "\<not> is_dup page_alpha_again" "\<not> is_dup page_delta"
  "\<not> is_dup page_blank" "\<not> is_dup page_stop_words"
  by (simp_all add: is_dup_def page_alpha_def page_alpha_again_def page_delta_def
      page_blank_def page_stop_words_def)

theorem continuity_overlap_and_gaps_witness:
  "jaccard_similarity (tokenize ''alpha beta gamma'') (tokenize ''delta epsilon'') = 0 \<and>
   audit_pair (1/10) page_alpha page_delta =
     Inr (page_delta_flagged,
          Some \<lparr>from_page = JInt 1, to_page = JInt 2, overlap = 0\<rparr>, Some 0) \<and>
   jaccard_similarity (tokenize ''alpha beta gamma'') (tokenize ''alpha beta gamma'') = 1 \<and>
   audit_pair (1/10) page_alpha page_alpha_again = Inr (page_alpha_again, None, Some 1) \<and>
   (\<exists>cards' rep. audit_continuity (1/10) [page_alpha, page_delta] = Inr (cards', rep) \<and>
      length cards' = 2 \<and> gap_count rep = length (gaps rep))"
proof -
  have disj: "set (tokenize ''alpha beta gamma'') \<inter> set (tokenize ''delta epsilon'') = {}"
    by (simp add: sample_tokens)
  have fl: "set_continuity_gap page_delta = Inr page_delta_flagged"
    by (simp add: set_continuity_gap_def page_delta_def page_delta_flagged_def)
  have pn: "get_or_null page_alpha ''page_num'' = JInt 1" "get_or_null page_delta ''page_num'' = JInt 2"
    by (simp_all add: get_or_null_def page_alpha_def page_delta_def)
  note a = continuity_overlap_and_gaps [OF sample_segments(1) sample_segments(3) sample_typed(3),
      of "1/10" "[page_alpha, page_delta]"]
  note b = continuity_overlap_and_gaps [OF sample_segments(1) sample_segments(2) sample_typed(2),
      of "1/10" "[page_alpha, page_delta]"]
  have j0: "jaccard_similarity (tokenize ''alpha beta gamma'') (tokenize ''delta epsilon'') = 0"
    using a disj sample_not_dup by (simp add: sample_tokens)
  have g: "\<exists>flagged flags. audit_pair (1/10) page_alpha page_delta =
      Inr (flagged, Some \<lparr>from_page = get_or_null page_alpha ''page_num'',
                          to_page = get_or_null page_delta ''page_num'', overlap = 0\<rparr>, Some 0)"
    using a disj sample_not_dup by (simp add: sample_tokens) blast
  have g': "audit_pair (1/10) page_alpha page_delta =
     Inr (page_delta_flagged, Some \<lparr>from_page = JInt 1, to_page = JInt 2, overlap = 0\<rparr>, Some 0)"
    using g audit_pair_gap [OF sample_segments(1) sample_segments(3) sample_not_dup(3) _ _ _ fl, of "1/10"]
      j0 pn by (simp add: sample_tokens round3_0)
  have j1: "jaccard_similarity (tokenize ''alpha beta gamma'') (tokenize ''alpha beta gamma'') = 1"
    using b sample_not_dup by (simp add: sample_tokens)
  have s: "audit_pair (1/10) page_alpha page_alpha_again = Inr (page_alpha_again, None, Some 1)"
    using b sample_not_dup by (simp add: sample_tokens)
  have t: "\<forall>c \<in> set [page_alpha, page_delta]. typed_card c" using sample_typed by simp
  have l: "\<exists>cards' rep. audit_continuity (1/10) [page_alpha, page_delta] = Inr (cards', rep) \<and>
      length cards' = 2 \<and> gap_count rep = length (gaps rep)"
    using a t by fastforce
  show ?thesis using j0 g' j1 s l by blast
qed

text \<open>
  The claim as stated fails when a page has no token: the pages share no token and the
  threshold is positive, but no gap is recorded and no overlap enters the statistics.  It
  also fails for a threshold above 1, under which identical pages are reported as a gap.
\<close>

theorem continuity_overlap_and_gaps_counterexample:
  "set (tokenize ''alpha beta gamma'') \<inter> set (tokenize '''') = {} \<and>
   (0::rat) < 1/10 \<and>
   audit_continuity (1/10) [page_alpha, page_blank] =
     Inr ([page_alpha, page_blank],
          \<lparr>gaps = [], gap_count = 0, gap_ratio = 0, avg_overlap = 0, threshold = 1/10\<rparr>) \<and>
   audit_pair 2 page_alpha page_alpha_again \<noteq> Inr (page_alpha_again, None, Some 1)"
proof -
  have 1: "audit_pair (1/10) page_alpha page_blank = Inr (page_blank, None, None)"
    using audit_pair_empty_side [OF sample_segments(1) sample_segments(4)] by (simp add: sample_tokens)
  have 2: "audit_continuity (1/10) [page_alpha, page_blank] =
     Inr ([page_alpha, page_blank],
          \<lparr>gaps = [], gap_count = 0, gap_ratio = 0, avg_overlap = 0, threshold = 1/10\<rparr>)"
    using 1 by (simp add: audit_continuity_def make_report_def round3_0)
  have fl: "\<exists>f. set_continuity_gap page_alpha_again = Inr f"
    using typed_card_flags sample_typed by blast
  have j: "jaccard_similarity (tokenize ''alpha beta gamma'') (tokenize ''alpha beta gamma'') = 1"
    by (simp add: jaccard_same sample_tokens)
  have 3: "audit_pair 2 page_alpha page_alpha_again \<noteq> Inr (page_alpha_again, None, Some 1)"
    using fl audit_pair_gap [OF sample_segments(1) sample_segments(2) sample_not_dup(2), of 2] j
    by (auto simp add: sample_tokens)
  show ?thesis using 2 3 by (simp add: sample_tokens)
qed

subsection \<open>Pages without tokens\<close>

text \<open>
  Claim C10.  When the text of either page of an adjacent pair has no token (the empty text,
  or a text whose words are all stop words or shorter than two characters), the step
  leaves the later card as it is and produces neither a gap nor an overlap, whatever the
  threshold: the loop carries on with unchanged lists, and the audit of the two pages alone
  reports no gap, gap ratio 0 and average overlap 0.
\<close>

theorem empty_token_pages_excluded:
  assumes "get_segment prev_card = Inr prev_text"
    and "get_segment curr_card = Inr curr_text"
    and "tokenize prev_text = [] \<or> tokenize curr_text = []"
  shows "audit_pair th prev_card curr_card = Inr (curr_card, None, None) \<and>
    audit_loop th prev_card (curr_card # rest) =
      (case audit_loop th curr_card rest of
         Inl e \<Rightarrow> Inl e
       | Inr (cs, gs, ovs) \<Rightarrow> Inr (curr_card # cs, gs, ovs)) \<and>
    audit_continuity th [prev_card, curr_card] =
      Inr ([prev_card, curr_card],
           \<lparr>gaps = [], gap_count = 0, gap_ratio = 0, avg_overlap = 0, threshold = th\<rparr>) \<and>
    tokenize '''' = [] \<and>
    ((\<forall>w \<in> set (findall_words (lower t)). w \<in> set STOP_WORDS) \<longrightarrow> tokenize t = [])"
proof -
  have p: "audit_pair th prev_card curr_card = Inr (curr_card, None, None)"
    using assms by (rule audit_pair_empty_side)
  have l: "audit_loop th prev_card (curr_card # rest) =
      (case audit_loop th curr_card rest of
         Inl e \<Rightarrow> Inl e
       | Inr (cs, gs, ovs) \<Rightarrow> Inr (curr_card # cs, gs, ovs))"
    using p by (simp split: sum.split)
  have c: "audit_continuity th [prev_card, curr_card] =
      Inr ([prev_card, curr_card],
           \<lparr>gaps = [], gap_count = 0, gap_ratio = 0, avg_overlap = 0, threshold = th\<rparr>)"
    using p by (simp add: audit_continuity_def make_report_def round3_0)
  have s: "(\<forall>w \<in> set (findall_words (lower t)). w \<in> set STOP_WORDS) \<longrightarrow> tokenize t = []"
    by (simp add: tokenize_def filter_empty_conv)
  show ?thesis using p l c s by (simp add: sample_tokens)
qed

theorem empty_token_pages_excluded_witness:
  "tokenize '''' = [] \<and> tokenize ''The a of - x'' = [] \<and>
   audit_pair (1/10) page_alpha page_blank = Inr (page_blank, None, None) \<and>
   audit_pair (1/10) page_stop_words page_alpha = Inr (page_alpha, None, None) \<and>
   audit_continuity (1/10) [page_alpha, page_blank] =
      Inr ([page_alpha, page_blank],
           \<lparr>gaps = [], gap_count = 0, gap_ratio = 0, avg_overlap = 0, threshold = 1/10\<rparr>)"
proof -
  have h1: "tokenize ''alpha beta gamma'' = [] \<or> tokenize '''' = []" by (simp add: sample_tokens)
  have h2: "tokenize ''The a of - x'' = [] \<or> tokenize ''alpha beta gamma'' = []"
    by (simp add: sample_tokens)
  show ?thesis
    using empty_token_pages_excluded [OF sample_segments(1) sample_segments(4) h1, of "1/10" "[]" "''''"]
      empty_token_pages_excluded [OF sample_segments(5) sample_segments(1) h2, of "1/10" "[]" "''''"]
    by (simp add: sample_tokens)
qed

section \<open>Properties of the duplicate detection\<close>

lemma typed_card_segment_of: "typed_card c \<Longrightarrow> get_segment c = Inr (segment_of c)"
  by (auto simp add: typed_card_def get_segment_def segment_of_def split: option.splits jval.splits)

lemma typed_card_page_of: "typed_card c \<Longrightarrow> get_page_num c = Inr (page_of c)"
  by (auto simp add: typed_card_def get_page_num_def page_of_def split: option.splits jval.splits)

lemma pages_with_Cons:
  "pages_with md5 h (c # cards) =
     (if long_enough c \<and> text_hash md5 (segment_of c) = h then page_of c # pages_with md5 h cards
      else pages_with md5 h cards)"
  by (simp add: pages_with_def)

lemma pages_with_Nil [simp]: "pages_with md5 h [] = []"
  by (simp add: pages_with_def)

lemma first_pass_filed:
  "\<forall>c \<in> set cards. typed_card c \<Longrightarrow>
   \<exists>seen'. first_pass md5 cards seen = Inr seen' \<and>
     (\<forall>h. map_of seen' h = filed (map_of seen h) (pages_with md5 h cards)) \<and>
     (distinct (map fst seen) \<longrightarrow> distinct (map fst seen'))"
proof (induction cards arbitrary: seen)
  case Nil
  show ?case by (auto simp add: filed_def split: option.splits)
next
  case (Cons c cards)
  have tc: "typed_card c" and rest: "\<forall>c \<in> set cards. typed_card c" using Cons.prems by simp_all
  note seg = typed_card_segment_of [OF tc] and pg = typed_card_page_of [OF tc]
  show ?case
  proof (cases "long_enough c")
    case False
    then have short: "length (strip (segment_of c)) < 50" by (simp add: long_enough_def)
    obtain seen' where s: "first_pass md5 cards seen = Inr seen'"
      "\<forall>h. map_of seen' h = filed (map_of seen h) (pages_with md5 h cards)"
      "distinct (map fst seen) \<longrightarrow> distinct (map fst seen')"
      using Cons.IH [OF rest, of seen] by blast
    have "first_pass md5 (c # cards) seen = Inr seen'" using seg short s(1) by simp
    then show ?thesis using s(2,3) False by (simp add: pages_with_Cons)
  next
    case True
    then have long: "\<not> length (strip (segment_of c)) < 50" by (simp add: long_enough_def)
    let ?h0 = "text_hash md5 (segment_of c)"
    let ?new = "(case map_of seen ?h0 of Some ps \<Rightarrow> ps @ [page_of c] | None \<Rightarrow> [page_of c])"
    let ?seen1 = "AList.update ?h0 ?new seen"
    have step: "first_pass md5 (c # cards) seen = first_pass md5 cards ?seen1"
      using seg pg long by (simp add: Let_def split: option.split)
    obtain seen' where s: "first_pass md5 cards ?seen1 = Inr seen'"
      "\<forall>h. map_of seen' h = filed (map_of ?seen1 h) (pages_with md5 h cards)"
      "distinct (map fst ?seen1) \<longrightarrow> distinct (map fst seen')"
      using Cons.IH [OF rest, of ?seen1] by blast
    have m: "map_of seen' h = filed (map_of seen h) (pages_with md5 h (c # cards))" for h
    proof (cases "h = ?h0")
      case False
      then show ?thesis using s(2) True by (simp add: pages_with_Cons update_conv')
    next
      case h: True
      show ?thesis using s(2) True h
        by (cases "map_of seen ?h0") (simp_all add: pages_with_Cons update_conv' filed_def)
    qed
    have d: "distinct (map fst seen) \<longrightarrow> distinct (map fst seen')"
      using s(3) by (simp add: distinct_update)
    show ?thesis using step s(1) m d by simp
  qed
qed

lemma first_pass_result:
  assumes "\<forall>c \<in> set cards. typed_card c"
  obtains seen where "first_pass md5 cards [] = Inr seen" "distinct (map fst seen)"
    "\<And>h ps. ((h, ps) \<in> set seen) = (ps = pages_with md5 h cards \<and> ps \<noteq> [])"
proof -
  obtain seen where s: "first_pass md5 cards [] = Inr seen"
    "\<forall>h. map_of seen h = filed None (pages_with md5 h cards)" "distinct (map fst seen)"
    using first_pass_filed [OF assms, of md5 "[]"] by auto
  have "((h, ps) \<in> set seen) = (ps = pages_with md5 h cards \<and> ps \<noteq> [])" for h ps
  proof -
    have "((h, ps) \<in> set seen) = (map_of seen h = Some ps)" using s(3) by simp
    then show ?thesis using s(2) by (auto simp add: filed_def)
  qed
  then show ?thesis using that s by blast
qed

lemma detect_duplicates_groups:
  assumes "\<forall>c \<in> set cards. typed_card c"
  obtains groups where "detect_duplicates md5 cards = Inr groups"
    "\<And>g. (g \<in> set groups) = (\<exists>h. 1 < length (pages_with md5 h cards) \<and> g = exact_group md5 cards h)"
proof -
  obtain seen where s: "first_pass md5 cards [] = Inr seen" "distinct (map fst seen)"
    "\<And>h ps. ((h, ps) \<in> set seen) = (ps = pages_with md5 h cards \<and> ps \<noteq> [])"
    using first_pass_result [OF assms] by blast
  have d: "detect_duplicates md5 cards = Inr (collect_exact seen)"
    using s(1) by (simp add: detect_duplicates_def)
  have "(g \<in> set (collect_exact seen)) =
        (\<exists>h. 1 < length (pages_with md5 h cards) \<and> g = exact_group md5 cards h)" for g
  proof
    assume "g \<in> set (collect_exact seen)"
    then obtain h ps where "(h, ps) \<in> set seen" "1 < length ps"
      "g = \<lparr>pages = sort ps, similarity = 1, dup_type = ''exact''\<rparr>"
      by (auto simp add: collect_exact_def)
    then show "\<exists>h. 1 < length (pages_with md5 h cards) \<and> g = exact_group md5 cards h"
      using s(3) by (auto simp add: exact_group_def)
  next
    assume "\<exists>h. 1 < length (pages_with md5 h cards) \<and> g = exact_group md5 cards h"
    then obtain h where h: "1 < length (pages_with md5 h cards)" "g = exact_group md5 cards h" by blast
    then have "(h, pages_with md5 h cards) \<in> set seen" using s(3) by auto
    then show "g \<in> set (collect_exact seen)" using h
      by (force simp add: collect_exact_def exact_group_def)
  qed
  then show ?thesis using that d by blast
qed

lemma filter_two:
  "i < j \<Longrightarrow> j < length xs \<Longrightarrow> P (xs ! i) \<Longrightarrow> P (xs ! j) \<Longrightarrow> 1 < length (filter P xs)"
proof (induction xs arbitrary: i j)
  case Nil then show ?case by simp
next
  case (Cons x xs)
  show ?case
  proof (cases i)
    case 0
    obtain j' where j: "j = Suc j'" using Cons.prems(1) by (cases j) auto
    then have "xs ! j' \<in> set xs" "P (xs ! j')" using Cons.prems by auto
    then have "filter P xs \<noteq> []" by (auto simp add: filter_empty_conv)
    then have "0 < length (filter P xs)" by simp
    then show ?thesis using 0 Cons.prems by simp
  next
    case (Suc i')
    obtain j' where j: "j = Suc j'" using Cons.prems(1) by (cases j) auto
    have "1 < length (filter P xs)" using Cons.IH [of i' j'] Cons.prems Suc j by simp
    then show ?thesis by auto
  qed
qed

lemma same_text_same_group:
  assumes "i < j" "j < length cards" "long_enough (cards ! i)" "long_enough (cards ! j)"
    "normalized_text (segment_of (cards ! i)) = normalized_text (segment_of (cards ! j))"
  shows "1 < length (pages_with md5 (text_hash md5 (segment_of (cards ! i))) cards) \<and>
    page_of (cards ! i) \<in> set (pages_with md5 (text_hash md5 (segment_of (cards ! i))) cards) \<and>
    page_of (cards ! j) \<in> set (pages_with md5 (text_hash md5 (segment_of (cards ! i))) cards)"
proof -
  let ?h = "text_hash md5 (segment_of (cards ! i))"
  let ?P = "\<lambda>c. long_enough c \<and> text_hash md5 (segment_of c) = ?h"
  have hj: "text_hash md5 (segment_of (cards ! j)) = ?h" using assms(5) by (simp add: text_hash_def)
  have pi: "?P (cards ! i)" using assms(3) by simp
  have pj: "?P (cards ! j)" using assms(4) hj by simp
  have "1 < length (filter ?P cards)" using filter_two [OF assms(1,2), of ?P] pi pj by blast
  moreover have "cards ! i \<in> set (filter ?P cards)" "cards ! j \<in> set (filter ?P cards)"
    using assms(1,2) pi pj by auto
  ultimately show ?thesis by (auto simp add: pages_with_def)
qed

lemma mark_card_unmarked:
  "typed_card c \<Longrightarrow> page_of c \<notin> duplicate_pages groups \<Longrightarrow> mark_card groups c = Inr (c, 0)"
  by (simp add: mark_card_def typed_card_page_of)

lemma mark_card_marked:
  "typed_card c \<Longrightarrow> page_of c \<in> duplicate_pages groups \<Longrightarrow>
   first_group groups (page_of c) = Some g \<Longrightarrow>
   mark_card groups c =
     Inr (AList.update ''duplicate_of'' (JInt (hd (pages g)))
            (AList.update ''is_duplicate'' (JBool True) c), 1)"
  by (simp add: mark_card_def typed_card_page_of)

lemma mark_card_total: "typed_card c \<Longrightarrow> \<exists>c' k. mark_card groups c = Inr (c', k)"
  by (simp add: mark_card_def typed_card_page_of Let_def)

lemma mark_card_keeps:
  "mark_card groups c = Inr (c', k) \<Longrightarrow> key \<noteq> ''is_duplicate'' \<Longrightarrow> key \<noteq> ''duplicate_of'' \<Longrightarrow>
   map_of c' key = map_of c key"
  by (auto simp add: mark_card_def Let_def update_conv' split: sum.splits if_splits option.splits)

lemma mark_duplicates_pointwise:
  "\<forall>c \<in> set cards. typed_card c \<Longrightarrow>
   \<exists>cards' n. mark_duplicates cards groups = Inr (cards', n) \<and> length cards' = length cards \<and>
     (\<forall>k < length cards. \<exists>m. mark_card groups (cards ! k) = Inr (cards' ! k, m))"
proof (induction cards)
  case Nil show ?case by simp
next
  case (Cons c cards)
  obtain c' m where mc: "mark_card groups c = Inr (c', m)"
    using mark_card_total [of c groups] Cons.prems by auto
  obtain cards' n where r: "mark_duplicates cards groups = Inr (cards', n)"
    "length cards' = length cards"
    "\<forall>k < length cards. \<exists>m. mark_card groups (cards ! k) = Inr (cards' ! k, m)"
    using Cons.IH Cons.prems by auto
  have "mark_duplicates (c # cards) groups = Inr (c' # cards', m + n)" using mc r(1) by simp
  moreover have "\<exists>m. mark_card groups ((c # cards) ! k) = Inr ((c' # cards') ! k, m)"
    if "k < length (c # cards)" for k
    using that mc r(3) by (cases k) auto
  ultimately show ?case using r(2) by auto
qed

lemma pages_with_member:
  "p \<in> set (pages_with md5 h cards) \<Longrightarrow>
   \<exists>c \<in> set cards. text_hash md5 (segment_of c) = h \<and> page_of c = p"
  by (auto simp add: pages_with_def)

lemma pages_with_one_hash:
  assumes "distinct (map page_of cards)"
    and "p \<in> set (pages_with md5 h cards)" and "p \<in> set (pages_with md5 h' cards)"
  shows "h = h'"
proof -
  obtain c where c: "c \<in> set cards" "text_hash md5 (segment_of c) = h" "page_of c = p"
    using pages_with_member [OF assms(2)] by blast
  obtain c' where c': "c' \<in> set cards" "text_hash md5 (segment_of c') = h'" "page_of c' = p"
    using pages_with_member [OF assms(3)] by blast
  have "inj_on page_of (set cards)" using assms(1) by (simp add: distinct_map)
  then have "c = c'" using c c' by (auto dest: inj_onD)
  then show ?thesis using c c' by simp
qed

lemma pages_with_distinct: "distinct (map page_of cards) \<Longrightarrow> distinct (pages_with md5 h cards)"
  by (simp add: pages_with_def distinct_map_filter)

lemma sorted_hd_least: "sorted xs \<Longrightarrow> x \<in> set xs \<Longrightarrow> hd xs \<le> x"
  by (cases xs) auto

lemma distinct_hd_not_tl: "distinct xs \<Longrightarrow> xs \<noteq> [] \<Longrightarrow> hd xs \<notin> set (tl xs)"
  by (cases xs) auto

lemma duplicate_pages_iff:
  "(p \<in> duplicate_pages groups) = (\<exists>g \<in> set groups. p \<in> set (tl (pages g)))"
  by (auto simp add: duplicate_pages_def)

lemma exact_group_pages [simp]: "pages (exact_group md5 cards h) = sort (pages_with md5 h cards)"
  by (simp add: exact_group_def)

lemma groups_ofD:
  "groups_of md5 cards groups \<Longrightarrow> g \<in> set groups \<Longrightarrow>
   \<exists>h. 1 < length (pages_with md5 h cards) \<and> g = exact_group md5 cards h"
  unfolding groups_of_def by simp

lemma group_same:
  assumes dist: "distinct (map page_of cards)"
    and gs: "groups_of md5 cards groups"
    and g: "g \<in> set groups" and g': "g' \<in> set groups"
    and p: "p \<in> set (pages g')" "p \<in> set (pages g)"
  shows "g' = g"
proof -
  obtain h where h: "g = exact_group md5 cards h" using groups_ofD [OF gs g] by blast
  obtain h' where h': "g' = exact_group md5 cards h'" using groups_ofD [OF gs g'] by blast
  have "p \<in> set (pages_with md5 h' cards)" using p(1) h' by simp
  moreover have "p \<in> set (pages_with md5 h cards)" using p(2) h by simp
  ultimately have "h' = h" using pages_with_one_hash [OF dist] by blast
  then show ?thesis using h h' by simp
qed

lemma group_shape:
  assumes dist: "distinct (map page_of cards)"
    and gs: "groups_of md5 cards groups"
    and g: "g \<in> set groups"
  shows "pages g \<noteq> []" "distinct (pages g)" "sorted (pages g)"
proof -
  obtain h where h: "1 < length (pages_with md5 h cards)" "g = exact_group md5 cards h"
    using groups_ofD [OF gs g] by blast
  have pg: "pages g = sort (pages_with md5 h cards)" using h(2) by simp
  have "length (pages g) = length (pages_with md5 h cards)" unfolding pg by simp
  then show "pages g \<noteq> []" using h(1) by auto
  show "distinct (pages g)" unfolding pg using pages_with_distinct [OF dist] by simp
  show "sorted (pages g)" unfolding pg by simp
qed

lemma in_tl_in_set: "x \<in> set (tl xs) \<Longrightarrow> x \<in> set xs"
  by (cases xs) auto

lemma canonical_unmarked:
  assumes dist: "distinct (map page_of cards)"
    and gs: "groups_of md5 cards groups"
    and g: "g \<in> set groups"
    and tc: "typed_card c"
    and p: "page_of c = hd (pages g)"
  shows "mark_card groups c = Inr (c, 0)"
proof -
  note sh = group_shape [OF dist gs g]
  have ing: "page_of c \<in> set (pages g)" using p sh(1) by simp
  have "page_of c \<notin> duplicate_pages groups"
  proof
    assume "page_of c \<in> duplicate_pages groups"
    then obtain g' where g': "g' \<in> set groups" "page_of c \<in> set (tl (pages g'))"
      unfolding duplicate_pages_iff by blast
    have "page_of c \<in> set (pages g')" using g'(2) by (rule in_tl_in_set)
    then have "g' = g" using group_same [OF dist gs g g'(1)] ing by blast
    then have "hd (pages g) \<in> set (tl (pages g))" using g'(2) p by simp
    then show False using distinct_hd_not_tl [OF sh(2) sh(1)] by simp
  qed
  then show ?thesis using tc by (simp add: mark_card_unmarked)
qed

lemma first_group_found:
  assumes "g \<in> set groups" "p \<in> set (pages g)"
  obtains g' where "first_group groups p = Some g'" "g' \<in> set groups" "p \<in> set (pages g')"
proof (cases "first_group groups p")
  case None
  then have "\<not> (\<exists>x. x \<in> set groups \<and> p \<in> set (pages x))"
    unfolding first_group_def find_None_iff .
  then show ?thesis using assms by blast
next
  case (Some g')
  then obtain i where "i < length groups" "p \<in> set (pages (groups ! i))" "g' = groups ! i"
    unfolding first_group_def find_Some_iff by blast
  then have "g' \<in> set groups" "p \<in> set (pages g')" by simp_all
  then show ?thesis using that Some by blast
qed

lemma duplicate_marked:
  assumes dist: "distinct (map page_of cards)"
    and gs: "groups_of md5 cards groups"
    and g: "g \<in> set groups"
    and tc: "typed_card c"
    and p: "page_of c \<in> set (tl (pages g))"
  shows "mark_card groups c =
           Inr (AList.update ''duplicate_of'' (JInt (hd (pages g)))
                  (AList.update ''is_duplicate'' (JBool True) c), 1)"
proof -
  have dp: "page_of c \<in> duplicate_pages groups" unfolding duplicate_pages_iff using g p by blast
  have ing: "page_of c \<in> set (pages g)" using p by (rule in_tl_in_set)
  obtain g' where f: "first_group groups (page_of c) = Some g'" "g' \<in> set groups"
    "page_of c \<in> set (pages g')" using first_group_found [OF g ing] by blast
  have "g' = g" using group_same [OF dist gs g f(2) f(3) ing] .
  then show ?thesis using mark_card_marked [OF tc dp f(1)] by simp
qed

lemma marked_fields:
  "map_of (AList.update ''duplicate_of'' v (AList.update ''is_duplicate'' w c)) ''is_duplicate'' = Some w"
  "map_of (AList.update ''duplicate_of'' v (AList.update ''is_duplicate'' w c)) ''duplicate_of'' = Some v"
  by (simp_all add: update_conv')

lemma licence_texts_normalized: "normalized_text licence_text = normalized_text licence_text_respaced"
  by code_simp

lemma licence_pages_detected: "detect_duplicates sample_digest [licence_page1, licence_page2, other_page3] =
   Inr [\<lparr>pages = [1, 2], similarity = 1, dup_type = ''exact''\<rparr>]"
  by code_simp

lemma licence_pages_marked: "mark_duplicates [licence_page1, licence_page2, other_page3]
     [\<lparr>pages = [1, 2], similarity = 1, dup_type = ''exact''\<rparr>] =
   Inr ([licence_page1, licence_page2_marked, other_page3], 1)"
  by code_simp

lemma merged_pages_detected: "detect_duplicates sample_digest [book_a_page1, book_b_page1] =
   Inr [\<lparr>pages = [1, 1], similarity = 1, dup_type = ''exact''\<rparr>]"
  by code_simp

lemma merged_pages_marked: "mark_duplicates [book_a_page1, book_b_page1]
     [\<lparr>pages = [1, 1], similarity = 1, dup_type = ''exact''\<rparr>] =
   Inr ([book_a_page1_marked, book_b_page1_marked], 2)"
  by code_simp

lemma detect_duplicates_groups_of:
  assumes "\<forall>c \<in> set cards. typed_card c"
  shows "\<exists>groups. detect_duplicates md5 cards = Inr groups \<and> groups_of md5 cards groups"
proof -
  obtain groups where "detect_duplicates md5 cards = Inr groups"
    "\<And>g. (g \<in> set groups) = (\<exists>h. 1 < length (pages_with md5 h cards) \<and> g = exact_group md5 cards h)"
    using detect_duplicates_groups [OF assms] by blast
  then show ?thesis unfolding groups_of_def by blast
qed

lemma same_text_grouped:
  assumes gs: "groups_of md5 cards groups"
    and "i < j" "j < length cards" "long_enough (cards ! i)" "long_enough (cards ! j)"
    "normalized_text (segment_of (cards ! i)) = normalized_text (segment_of (cards ! j))"
  shows "\<exists>g \<in> set groups. page_of (cards ! i) \<in> set (pages g) \<and> page_of (cards ! j) \<in> set (pages g) \<and>
           similarity g = 1 \<and> dup_type g = ''exact''"
proof -
  let ?h = "text_hash md5 (segment_of (cards ! i))"
  note s = same_text_same_group [OF assms(2-6), of md5]
  have "exact_group md5 cards ?h \<in> set groups" using gs s unfolding groups_of_def by blast
  moreover have "page_of (cards ! i) \<in> set (pages (exact_group md5 cards ?h))"
    "page_of (cards ! j) \<in> set (pages (exact_group md5 cards ?h))" using s by simp_all
  moreover have "similarity (exact_group md5 cards ?h) = 1" "dup_type (exact_group md5 cards ?h) = ''exact''"
    by (simp_all add: exact_group_def)
  ultimately show ?thesis by blast
qed

subsection \<open>Exact duplicates and their marks\<close>

text \<open>
  On cards whose segments are strings and whose page numbers are integers, the detection
  and the marking return.  Two cards whose texts are equal after normalisation (lower
  case, whitespace collapsed) and have at least 50 characters after stripping lie in one
  group of type exact with similarity 1.  Marking deletes no card and changes no field
  other than \<open>is_duplicate\<close> and \<open>duplicate_of\<close>.  When the page numbers of the cards are
  pairwise distinct, the first page of every group is its lowest page number, the card
  with that number is left unchanged, and every card whose page number is another page
  of the group gets \<open>is_duplicate = true\<close> and \<open>duplicate_of\<close> set to the first page.
\<close>

lemma marks_on_distinct_pages:
  assumes typed: "\<forall>c \<in> set cards. typed_card c"
  shows "\<exists>groups cards' n.
     detect_duplicates md5 cards = Inr groups \<and>
     mark_duplicates cards groups = Inr (cards', n) \<and>
     length cards' = length cards \<and>
     (\<forall>k < length cards. \<forall>key. key \<noteq> ''is_duplicate'' \<and> key \<noteq> ''duplicate_of'' \<longrightarrow>
          map_of (cards' ! k) key = map_of (cards ! k) key) \<and>
     (\<forall>i j. i < j \<and> j < length cards \<and> long_enough (cards ! i) \<and> long_enough (cards ! j) \<and>
          normalized_text (segment_of (cards ! i)) = normalized_text (segment_of (cards ! j)) \<longrightarrow>
          (\<exists>g \<in> set groups. page_of (cards ! i) \<in> set (pages g) \<and>
              page_of (cards ! j) \<in> set (pages g) \<and> similarity g = 1 \<and> dup_type g = ''exact'')) \<and>
     (distinct (map page_of cards) \<longrightarrow>
        (\<forall>g \<in> set groups.
           (\<forall>p \<in> set (pages g). hd (pages g) \<le> p) \<and>
           (\<forall>k < length cards.
              (page_of (cards ! k) = hd (pages g) \<longrightarrow> cards' ! k = cards ! k) \<and>
              (page_of (cards ! k) \<in> set (tl (pages g)) \<longrightarrow>
                 map_of (cards' ! k) ''is_duplicate'' = Some (JBool True) \<and>
                 map_of (cards' ! k) ''duplicate_of'' = Some (JInt (hd (pages g)))))))"
proof -
  obtain groups where d: "detect_duplicates md5 cards = Inr groups" and gs: "groups_of md5 cards groups"
    using detect_duplicates_groups_of [OF typed] by blast
  obtain cards' n where m: "mark_duplicates cards groups = Inr (cards', n)"
    and len: "length cards' = length cards"
    and pw: "\<forall>k < length cards. \<exists>m. mark_card groups (cards ! k) = Inr (cards' ! k, m)"
    using mark_duplicates_pointwise [OF typed, of groups] by blast
  have keep: "\<forall>k < length cards. \<forall>key. key \<noteq> ''is_duplicate'' \<and> key \<noteq> ''duplicate_of'' \<longrightarrow>
          map_of (cards' ! k) key = map_of (cards ! k) key"
  proof (intro allI impI)
    fix k key
    assume k: "k < length cards" and key: "key \<noteq> ''is_duplicate'' \<and> key \<noteq> ''duplicate_of''"
    obtain mm where mk: "mark_card groups (cards ! k) = Inr (cards' ! k, mm)" using pw k by blast
    show "map_of (cards' ! k) key = map_of (cards ! k) key"
      using mark_card_keeps [OF mk] key by simp
  qed
  have grp: "\<forall>i j. i < j \<and> j < length cards \<and> long_enough (cards ! i) \<and> long_enough (cards ! j) \<and>
          normalized_text (segment_of (cards ! i)) = normalized_text (segment_of (cards ! j)) \<longrightarrow>
          (\<exists>g \<in> set groups. page_of (cards ! i) \<in> set (pages g) \<and>
              page_of (cards ! j) \<in> set (pages g) \<and> similarity g = 1 \<and> dup_type g = ''exact'')"
  proof (intro allI impI)
    fix i j
    assume "i < j \<and> j < length cards \<and> long_enough (cards ! i) \<and> long_enough (cards ! j) \<and>
          normalized_text (segment_of (cards ! i)) = normalized_text (segment_of (cards ! j))"
    then show "\<exists>g \<in> set groups. page_of (cards ! i) \<in> set (pages g) \<and>
              page_of (cards ! j) \<in> set (pages g) \<and> similarity g = 1 \<and> dup_type g = ''exact''"
      using same_text_grouped [OF gs, of i j] by simp
  qed
  have can: "(\<forall>p \<in> set (pages g). hd (pages g) \<le> p) \<and>
           (\<forall>k < length cards.
              (page_of (cards ! k) = hd (pages g) \<longrightarrow> cards' ! k = cards ! k) \<and>
              (page_of (cards ! k) \<in> set (tl (pages g)) \<longrightarrow>
                 map_of (cards' ! k) ''is_duplicate'' = Some (JBool True) \<and>
                 map_of (cards' ! k) ''duplicate_of'' = Some (JInt (hd (pages g)))))"
    if dist: "distinct (map page_of cards)" and g: "g \<in> set groups" for g
  proof -
    note sh = group_shape [OF dist gs g]
    have least: "\<forall>p \<in> set (pages g). hd (pages g) \<le> p" using sh(3) sorted_hd_least by blast
    have "(page_of (cards ! k) = hd (pages g) \<longrightarrow> cards' ! k = cards ! k) \<and>
              (page_of (cards ! k) \<in> set (tl (pages g)) \<longrightarrow>
                 map_of (cards' ! k) ''is_duplicate'' = Some (JBool True) \<and>
                 map_of (cards' ! k) ''duplicate_of'' = Some (JInt (hd (pages g))))"
      if k: "k < length cards" for k
    proof -
      have tc: "typed_card (cards ! k)" using typed k by simp
      obtain mm where mk: "mark_card groups (cards ! k) = Inr (cards' ! k, mm)" using pw k by blast
      have a: "cards' ! k = cards ! k" if "page_of (cards ! k) = hd (pages g)"
        using canonical_unmarked [OF dist gs g tc that] mk by simp
      have b: "map_of (cards' ! k) ''is_duplicate'' = Some (JBool True) \<and>
                 map_of (cards' ! k) ''duplicate_of'' = Some (JInt (hd (pages g)))"
        if "page_of (cards ! k) \<in> set (tl (pages g))"
        using duplicate_marked [OF dist gs g tc that] mk by (simp add: marked_fields)
      show ?thesis using a b by simp
    qed
    then show ?thesis using least by simp
  qed
  have can': "distinct (map page_of cards) \<longrightarrow>
        (\<forall>g \<in> set groups.
           (\<forall>p \<in> set (pages g). hd (pages g) \<le> p) \<and>
           (\<forall>k < length cards.
              (page_of (cards ! k) = hd (pages g) \<longrightarrow> cards' ! k = cards ! k) \<and>
              (page_of (cards ! k) \<in> set (tl (pages g)) \<longrightarrow>
                 map_of (cards' ! k) ''is_duplicate'' = Some (JBool True) \<and>
                 map_of (cards' ! k) ''duplicate_of'' = Some (JInt (hd (pages g))))))"
    by (intro impI ballI) (rule can)
  show ?thesis
    by (rule exI [of _ groups], rule exI [of _ cards'], rule exI [of _ n])
       (intro conjI d m len keep grp can')
qed

lemma sample_pages_typed:
  "typed_card licence_page1" "typed_card licence_page2" "typed_card other_page3"
  by (simp_all add: typed_card_def licence_page1_def licence_page2_def other_page3_def)

lemma sample_pages_long:
  "long_enough licence_page1" "long_enough licence_page2"
  by code_simp+

lemma sample_pages_distinct:
  "distinct (map page_of [licence_page1, licence_page2, other_page3])"
  by (simp add: page_of_def get_page_num_def licence_page1_def licence_page2_def other_page3_def)

lemma marks_on_distinct_pages_sample:
  "typed_card licence_page1 \<and> typed_card licence_page2 \<and> typed_card other_page3 \<and>
   distinct (map page_of [licence_page1, licence_page2, other_page3]) \<and>
   long_enough licence_page1 \<and> long_enough licence_page2 \<and>
   normalized_text licence_text = normalized_text licence_text_respaced \<and>
   detect_duplicates sample_digest [licence_page1, licence_page2, other_page3] =
     Inr [\<lparr>pages = [1, 2], similarity = 1, dup_type = ''exact''\<rparr>] \<and>
   mark_duplicates [licence_page1, licence_page2, other_page3]
       [\<lparr>pages = [1, 2], similarity = 1, dup_type = ''exact''\<rparr>] =
     Inr ([licence_page1, licence_page2_marked, other_page3], 1)"
proof -
  have t: "\<forall>c \<in> set [licence_page1, licence_page2, other_page3]. typed_card c"
    using sample_pages_typed by simp
  have "\<exists>groups cards' n.
      detect_duplicates sample_digest [licence_page1, licence_page2, other_page3] = Inr groups \<and>
      mark_duplicates [licence_page1, licence_page2, other_page3] groups = Inr (cards', n)"
    using marks_on_distinct_pages [OF t, of sample_digest] by (elim exE conjE) (intro exI conjI)
  then obtain groups cards' n where
    d: "detect_duplicates sample_digest [licence_page1, licence_page2, other_page3] = Inr groups"
    and m: "mark_duplicates [licence_page1, licence_page2, other_page3] groups = Inr (cards', n)"
    by blast
  have g: "groups = [\<lparr>pages = [1, 2], similarity = 1, dup_type = ''exact''\<rparr>]"
    using d by (simp add: licence_pages_detected)
  have r: "mark_duplicates [licence_page1, licence_page2, other_page3]
       [\<lparr>pages = [1, 2], similarity = 1, dup_type = ''exact''\<rparr>] =
     Inr ([licence_page1, licence_page2_marked, other_page3], 1)"
    using m g by (simp only: licence_pages_marked)
  show ?thesis
    using sample_pages_typed sample_pages_long sample_pages_distinct licence_texts_normalized d g r by simp
qed

text \<open>
  Claim C8.  The marking does not keep the first page of a group when a page number
  occurs twice in the card list, as in a dataset merged from two books or on cards
  without \<open>page_num\<close>.  Two first pages with the same licence text form the group of
  pages 1, 1; \<^verbatim>\<open>pages[1:]\<close> puts page 1 into the set of pages to mark, and every card with
  that page number, the first one included, gets \<open>is_duplicate = true\<close> and
  \<open>duplicate_of = 1\<close>.  The count of marked pages is 2, and no card of the group is left
  unmarked, against the comment \<^verbatim>\<open>Keep first page, mark others as duplicates\<close>.
\<close>

theorem mark_duplicates_marks_first_page:
  "typed_card book_a_page1 \<and> typed_card book_b_page1 \<and>
   page_of book_a_page1 = 1 \<and> page_of book_b_page1 = 1 \<and>
   detect_duplicates sample_digest [book_a_page1, book_b_page1] =
     Inr [\<lparr>pages = [1, 1], similarity = 1, dup_type = ''exact''\<rparr>] \<and>
   duplicate_pages [\<lparr>pages = [1, 1], similarity = 1, dup_type = ''exact''\<rparr>] = {1} \<and>
   mark_duplicates [book_a_page1, book_b_page1]
       [\<lparr>pages = [1, 1], similarity = 1, dup_type = ''exact''\<rparr>] =
     Inr ([book_a_page1_marked, book_b_page1_marked], 2) \<and>
   map_of book_a_page1_marked ''is_duplicate'' = Some (JBool True) \<and>
   map_of book_a_page1_marked ''duplicate_of'' = Some (JInt 1) \<and>
   map_of book_b_page1_marked ''is_duplicate'' = Some (JBool True) \<and>
   map_of book_b_page1_marked ''duplicate_of'' = Some (JInt 1)"
proof -
  have "typed_card book_a_page1" "typed_card book_b_page1"
    by (simp_all add: typed_card_def book_a_page1_def book_b_page1_def)
  moreover have "page_of book_a_page1 = 1" "page_of book_b_page1 = 1"
    by (simp_all add: page_of_def get_page_num_def book_a_page1_def book_b_page1_def)
  moreover have "duplicate_pages [\<lparr>pages = [1, 1], similarity = 1, dup_type = ''exact''\<rparr>] = {1}"
    by (simp add: duplicate_pages_def)
  moreover have "map_of book_a_page1_marked ''is_duplicate'' = Some (JBool True)"
    "map_of book_b_page1_marked ''is_duplicate'' = Some (JBool True)"
    "map_of book_a_page1_marked ''duplicate_of'' = Some (JInt 1)"
    "map_of book_b_page1_marked ''duplicate_of'' = Some (JInt 1)"
    by (simp_all add: book_a_page1_marked_def book_b_page1_marked_def)
  ultimately show ?thesis using merged_pages_detected merged_pages_marked by simp
qed

section \<open>Properties of the orchestrator\<close>

lemma run_stages_critical_failure:
  "run stage cur = Inl e \<Longrightarrow> is_critical_stage stage \<Longrightarrow>
   run_stages vs run val (stage # rest) cur results calls =
     (results\<lparr>stages := AList.update stage (Failed e) (stages results),
              errors := errors results @ [(stage, e)]\<rparr>,
      calls @ [(stage, cur)])"
  by simp

lemma run_stages_recoverable_failure:
  "run stage cur = Inl e \<Longrightarrow> \<not> is_critical_stage stage \<Longrightarrow>
   run_stages vs run val (stage # rest) cur results calls =
     run_stages vs run val rest cur
       (results\<lparr>stages := AList.update stage (Failed e) (stages results),
                errors := errors results @ [(stage, e)]\<rparr>)
       (calls @ [(stage, cur)])"
  by simp

lemma run_stages_success:
  "run stage cur = Inr out \<Longrightarrow>
   \<exists>results'. run_stages vs run val (stage # rest) cur results calls =
     run_stages vs run val rest out results' (calls @ [(stage, cur)]) \<and>
     stages results' = AList.update stage (Success out) (stages results) \<and>
     errors results' = errors results"
  by (auto simp add: Let_def split: prod.splits option.splits bool.splits)

text \<open>
  The calls that the loop adds: they start with the current input, every further call gets
  the input passed on by the call before it, and no call follows the failure of a critical
  stage.
\<close>

lemma run_stages_calls:
  "\<exists>new. snd (run_stages vs run val stage_list cur results calls) = calls @ new \<and>
     (new \<noteq> [] \<longrightarrow> snd (hd new) = cur) \<and>
     (\<forall>k. Suc k < length new \<longrightarrow>
        snd (new ! Suc k) = next_input run (new ! k) \<and> \<not> critical_failure run (new ! k))"
proof (induction stage_list arbitrary: cur results calls)
  case Nil show ?case by simp
next
  case (Cons stage rest)
  show ?case
  proof (cases "run stage cur")
    case (Inl e)
    show ?thesis
    proof (cases "is_critical_stage stage")
      case True
      have "snd (run_stages vs run val (stage # rest) cur results calls) = calls @ [(stage, cur)]"
        using run_stages_critical_failure [where run=run and stage=stage and cur=cur, OF Inl True] by simp
      then show ?thesis by (intro exI [of _ "[(stage, cur)]"]) simp
    next
      case False
      let ?r1 = "results\<lparr>stages := AList.update stage (Failed e) (stages results),
                errors := errors results @ [(stage, e)]\<rparr>"
      obtain new where n: "snd (run_stages vs run val rest cur ?r1 (calls @ [(stage, cur)]))
            = (calls @ [(stage, cur)]) @ new"
        "new \<noteq> [] \<longrightarrow> snd (hd new) = cur"
        "\<forall>k. Suc k < length new \<longrightarrow>
           snd (new ! Suc k) = next_input run (new ! k) \<and> \<not> critical_failure run (new ! k)"
        using Cons.IH [of cur ?r1 "calls @ [(stage, cur)]"] by blast
      have eq: "snd (run_stages vs run val (stage # rest) cur results calls) = calls @ ((stage, cur) # new)"
        using run_stages_recoverable_failure [where run=run and stage=stage and cur=cur, OF Inl False, of vs val rest results calls] n(1) by simp
      have step: "snd (((stage, cur) # new) ! Suc k) = next_input run (((stage, cur) # new) ! k) \<and>
          \<not> critical_failure run (((stage, cur) # new) ! k)" if "Suc k < length ((stage, cur) # new)" for k
      proof (cases k)
        case 0
        then have "new \<noteq> []" using that by auto
        then have "snd (new ! 0) = cur" using n(2) by (simp add: hd_conv_nth)
        then show ?thesis using 0 Inl False by (simp add: next_input_def critical_failure_def)
      next
        case (Suc k')
        then show ?thesis using that n(3) by simp
      qed
      show ?thesis using eq step by (intro exI [of _ "(stage, cur) # new"]) simp
    qed
  next
    case (Inr out)
    obtain results' where r: "run_stages vs run val (stage # rest) cur results calls =
         run_stages vs run val rest out results' (calls @ [(stage, cur)])"
      using run_stages_success [where run=run and stage=stage and cur=cur, OF Inr, of vs val rest results calls] by blast
    obtain new where n: "snd (run_stages vs run val rest out results' (calls @ [(stage, cur)]))
            = (calls @ [(stage, cur)]) @ new"
        "new \<noteq> [] \<longrightarrow> snd (hd new) = out"
        "\<forall>k. Suc k < length new \<longrightarrow>
           snd (new ! Suc k) = next_input run (new ! k) \<and> \<not> critical_failure run (new ! k)"
      using Cons.IH [of out results' "calls @ [(stage, cur)]"] by blast
    have eq: "snd (run_stages vs run val (stage # rest) cur results calls) = calls @ ((stage, cur) # new)"
      using r n(1) by simp
    have step: "snd (((stage, cur) # new) ! Suc k) = next_input run (((stage, cur) # new) ! k) \<and>
          \<not> critical_failure run (((stage, cur) # new) ! k)" if "Suc k < length ((stage, cur) # new)" for k
    proof (cases k)
      case 0
      then have "new \<noteq> []" using that by auto
      then have "snd (new ! 0) = out" using n(2) by (simp add: hd_conv_nth)
      then show ?thesis using 0 Inr by (simp add: next_input_def critical_failure_def)
    next
      case (Suc k')
      then show ?thesis using that n(3) by simp
    qed
    show ?thesis using eq step by (intro exI [of _ "(stage, cur) # new"]) simp
  qed
qed

lemma run_single_calls:
  assumes "get_stage_sequence start_stage end_stage = Inr stage_list"
  shows "\<exists>res calls. run_single False vs run val input_path start_stage end_stage = Inr (Ran res calls) \<and>
     (calls \<noteq> [] \<longrightarrow> snd (hd calls) = input_path) \<and>
     (\<forall>k. Suc k < length calls \<longrightarrow>
        snd (calls ! Suc k) = next_input run (calls ! k) \<and> \<not> critical_failure run (calls ! k))"
proof -
  let ?r0 = "\<lparr>input = input_path, stages = [], errors = [], warnings = [], status = ''''\<rparr>"
  obtain results calls where rs: "run_stages vs run val stage_list input_path ?r0 [] = (results, calls)"
    by fastforce
  obtain new where n: "snd (run_stages vs run val stage_list input_path ?r0 []) = [] @ new"
    "new \<noteq> [] \<longrightarrow> snd (hd new) = input_path"
    "\<forall>k. Suc k < length new \<longrightarrow>
        snd (new ! Suc k) = next_input run (new ! k) \<and> \<not> critical_failure run (new ! k)"
    using run_stages_calls [of vs run val stage_list input_path ?r0 "[]"] by blast
  have c: "calls = new" using rs n(1) by simp
  have "\<exists>res. run_single False vs run val input_path start_stage end_stage = Inr (Ran res calls)"
    using assms rs by (simp add: run_single_def)
  then show ?thesis using n(2,3) c by blast
qed

subsection \<open>Critical and recoverable stages\<close>

text \<open>
  Claim C6.  In the stage loop of \<^verbatim>\<open>run_single\<close>, a failure of a critical stage (structural
  or finalize) records the failure and ends the loop: no later stage is called.  A failure
  of any other stage records the failure and the loop goes on with the next stage and the
  same current input, which is the output of the last stage that succeeded (the input path
  when none has).  A stage that succeeds hands its output to the next stage.  For every run
  that is not a dry run: the first call gets the input path, every later call gets the
  output of the call before it if that call succeeded and its input otherwise, and no
  call follows a failed critical stage.
\<close>

theorem critical_and_recoverable_failures:
  "(run stage cur = Inl e \<and> is_critical_stage stage \<longrightarrow>
      run_stages vs run val (stage # rest) cur results calls =
        (results\<lparr>stages := AList.update stage (Failed e) (stages results),
                 errors := errors results @ [(stage, e)]\<rparr>,
         calls @ [(stage, cur)])) \<and>
   (run stage cur = Inl e \<and> \<not> is_critical_stage stage \<longrightarrow>
      run_stages vs run val (stage # rest) cur results calls =
        run_stages vs run val rest cur
          (results\<lparr>stages := AList.update stage (Failed e) (stages results),
                   errors := errors results @ [(stage, e)]\<rparr>)
          (calls @ [(stage, cur)])) \<and>
   (run stage cur = Inr out \<longrightarrow>
      (\<exists>results'. run_stages vs run val (stage # rest) cur results calls =
          run_stages vs run val rest out results' (calls @ [(stage, cur)]) \<and>
          stages results' = AList.update stage (Success out) (stages results) \<and>
          errors results' = errors results)) \<and>
   is_critical_stage stage = (stage = ''structural'' \<or> stage = ''finalize'') \<and>
   (get_stage_sequence start_stage end_stage = Inr stage_list \<longrightarrow>
      (\<exists>res all_calls.
         run_single False vs run val input_path start_stage end_stage = Inr (Ran res all_calls) \<and>
         (all_calls \<noteq> [] \<longrightarrow> snd (hd all_calls) = input_path) \<and>
         (\<forall>k. Suc k < length all_calls \<longrightarrow>
            snd (all_calls ! Suc k) = next_input run (all_calls ! k) \<and>
            \<not> critical_failure run (all_calls ! k))))"
proof -
  have a: "run stage cur = Inl e \<and> is_critical_stage stage \<longrightarrow>
      run_stages vs run val (stage # rest) cur results calls =
        (results\<lparr>stages := AList.update stage (Failed e) (stages results),
                 errors := errors results @ [(stage, e)]\<rparr>,
         calls @ [(stage, cur)])"
    by simp
  have b: "run stage cur = Inl e \<and> \<not> is_critical_stage stage \<longrightarrow>
      run_stages vs run val (stage # rest) cur results calls =
        run_stages vs run val rest cur
          (results\<lparr>stages := AList.update stage (Failed e) (stages results),
                   errors := errors results @ [(stage, e)]\<rparr>)
          (calls @ [(stage, cur)])"
    by simp
  have c: "run stage cur = Inr out \<longrightarrow>
      (\<exists>results'. run_stages vs run val (stage # rest) cur results calls =
          run_stages vs run val rest out results' (calls @ [(stage, cur)]) \<and>
          stages results' = AList.update stage (Success out) (stages results) \<and>
          errors results' = errors results)"
    using run_stages_success [where run=run and stage=stage and cur=cur and out=out] by blast
  have d: "is_critical_stage stage = (stage = ''structural'' \<or> stage = ''finalize'')"
    by (simp add: is_critical_stage_def)
  have f: "get_stage_sequence start_stage end_stage = Inr stage_list \<longrightarrow>
      (\<exists>res all_calls.
         run_single False vs run val input_path start_stage end_stage = Inr (Ran res all_calls) \<and>
         (all_calls \<noteq> [] \<longrightarrow> snd (hd all_calls) = input_path) \<and>
         (\<forall>k. Suc k < length all_calls \<longrightarrow>
            snd (all_calls ! Suc k) = next_input run (all_calls ! k) \<and>
            \<not> critical_failure run (all_calls ! k)))"
    using run_single_calls by blast
  show ?thesis by (intro conjI a b c d f)
qed

lemma full_sequence: "get_stage_sequence ''structural'' ''embed'' = Inr ALL_STAGES"
  by (simp add: get_stage_sequence_def ALL_STAGES_def)

lemma summarize_fails_run:
  "run_single False True summarize_fails accepts_all ''book.pdf'' ''structural'' ''embed'' =
   Inr (Ran \<lparr>input = ''book.pdf'',
             stages =
               [(''structural'', Success ''structural.jsonl''),
                (''structure_detect'', Success ''structure_detect.jsonl''),
                (''summarize'', Failed ''boom''),
                (''extended'', Success ''extended.jsonl''),
                (''finalize'', Success ''finalize.jsonl''),
                (''chunk'', Success ''chunk.jsonl''),
                (''embed'', Success ''embed.jsonl'')],
             errors = [(''summarize'', ''boom'')], warnings = [],
             status = ''partial''\<rparr>
       [(''structural'', ''book.pdf''),
        (''structure_detect'', ''structural.jsonl''),
        (''summarize'', ''structure_detect.jsonl''),
        (''extended'', ''structure_detect.jsonl''),
        (''finalize'', ''extended.jsonl''),
        (''chunk'', ''finalize.jsonl''),
        (''embed'', ''chunk.jsonl'')])"
  by code_simp

lemma finalize_fails_run:
  "run_single False True finalize_fails accepts_all ''book.pdf'' ''structural'' ''embed'' =
   Inr (Ran \<lparr>input = ''book.pdf'',
             stages =
               [(''structural'', Success ''structural.jsonl''),
                (''structure_detect'', Success ''structure_detect.jsonl''),
                (''summarize'', Success ''summarize.jsonl''),
                (''extended'', Success ''extended.jsonl''),
                (''finalize'', Failed ''boom'')],
             errors = [(''finalize'', ''boom'')], warnings = [],
             status = ''partial''\<rparr>
       [(''structural'', ''book.pdf''),
        (''structure_detect'', ''structural.jsonl''),
        (''summarize'', ''structure_detect.jsonl''),
        (''extended'', ''summarize.jsonl''),
        (''finalize'', ''extended.jsonl'')])"
  by code_simp

theorem critical_and_recoverable_failures_witness:
  "finalize_fails ''finalize'' ''extended.jsonl'' = Inl ''boom'' \<and>
   is_critical_stage ''finalize'' \<and>
   run_stages True finalize_fails accepts_all [''finalize'', ''chunk'', ''embed''] ''extended.jsonl''
       \<lparr>input = ''book.pdf'', stages = [], errors = [], warnings = [], status = ''''\<rparr> [] =
     (\<lparr>input = ''book.pdf'', stages = [(''finalize'', Failed ''boom'')],
       errors = [(''finalize'', ''boom'')], warnings = [], status = ''''\<rparr>,
      [(''finalize'', ''extended.jsonl'')]) \<and>
   summarize_fails ''summarize'' ''structure_detect.jsonl'' = Inl ''boom'' \<and>
   \<not> is_critical_stage ''summarize'' \<and>
   run_stages True summarize_fails accepts_all [''summarize'', ''extended''] ''structure_detect.jsonl''
       \<lparr>input = ''book.pdf'', stages = [], errors = [], warnings = [], status = ''''\<rparr> [] =
     run_stages True summarize_fails accepts_all [''extended''] ''structure_detect.jsonl''
       \<lparr>input = ''book.pdf'', stages = [(''summarize'', Failed ''boom'')],
         errors = [(''summarize'', ''boom'')], warnings = [], status = ''''\<rparr>
       [(''summarize'', ''structure_detect.jsonl'')] \<and>
   get_stage_sequence ''structural'' ''embed'' = Inr ALL_STAGES \<and>
   (\<exists>res all_calls.
      run_single False True summarize_fails accepts_all ''book.pdf'' ''structural'' ''embed''
        = Inr (Ran res all_calls) \<and>
      snd (all_calls ! 3) = ''structure_detect.jsonl'')"
proof -
  let ?r0 = "\<lparr>input = ''book.pdf'', stages = [], errors = [], warnings = [], status = ''''\<rparr>"
  have h1: "finalize_fails ''finalize'' ''extended.jsonl'' = Inl ''boom''"
    by (simp add: finalize_fails_def)
  have h2: "is_critical_stage ''finalize''" by (simp add: is_critical_stage_def)
  have h3: "summarize_fails ''summarize'' ''structure_detect.jsonl'' = Inl ''boom''"
    by (simp add: summarize_fails_def)
  have h4: "\<not> is_critical_stage ''summarize''" by (simp add: is_critical_stage_def)
  note t1 = critical_and_recoverable_failures [of finalize_fails "''finalize''" "''extended.jsonl''"
      "''boom''" True accepts_all "[''chunk'', ''embed'']" ?r0 "[]", THEN conjunct1]
  note t2 = critical_and_recoverable_failures [of summarize_fails "''summarize''"
      "''structure_detect.jsonl''" "''boom''" True accepts_all "[''extended'']" ?r0 "[]",
      THEN conjunct2, THEN conjunct1]
  have w1: "run_stages True finalize_fails accepts_all [''finalize'', ''chunk'', ''embed''] ''extended.jsonl''
       ?r0 [] =
     (\<lparr>input = ''book.pdf'', stages = [(''finalize'', Failed ''boom'')],
       errors = [(''finalize'', ''boom'')], warnings = [], status = ''''\<rparr>,
      [(''finalize'', ''extended.jsonl'')])"
    using t1 h1 h2 by simp
  have w2: "run_stages True summarize_fails accepts_all [''summarize'', ''extended''] ''structure_detect.jsonl''
       ?r0 [] =
     run_stages True summarize_fails accepts_all [''extended''] ''structure_detect.jsonl''
       \<lparr>input = ''book.pdf'', stages = [(''summarize'', Failed ''boom'')],
         errors = [(''summarize'', ''boom'')], warnings = [], status = ''''\<rparr>
       [(''summarize'', ''structure_detect.jsonl'')]"
    using t2 h3 h4 by simp
  have w3: "\<exists>res all_calls.
      run_single False True summarize_fails accepts_all ''book.pdf'' ''structural'' ''embed''
        = Inr (Ran res all_calls) \<and>
      snd (all_calls ! 3) = ''structure_detect.jsonl''"
    by (simp add: summarize_fails_run)
  show ?thesis using h1 h2 h3 h4 w1 w2 w3 full_sequence by simp
qed

end
